theory Spec2Isabelle
  imports Complex_Main "HOL-Library.Extended_Nat"
begin

section \<open>Configuration\<close>

text \<open>
  What the code can throw: a \<open>TypeError\<close> with its message, or whatever else a socket
  factory throws from its own body.
\<close>

datatype exn = TypeError string | Exception string

text \<open>
  The value stored under the key \<open>constructor\<close>, by what \<open>typeof\<close> and \<open>new\<close> make of
  it. A function is identified by its reference and is one of three kinds: \<open>new\<close> turns it
  into a socket (\<open>Callable\<close>); its body throws when \<open>new\<close> runs it (\<open>Raising\<close>, with what it
  throws); or it is no constructor at all, as an arrow function or a method is
  (\<open>NotConstructor\<close>), and \<open>new\<close> throws a \<open>TypeError\<close>. Anything else is \<open>NotCallable\<close>:
  \<open>null\<close> where no global \<open>WebSocket\<close> exists, or a non-function supplied by the caller.
\<close>

datatype factory = Callable nat | Raising nat exn | NotConstructor nat | NotCallable

text \<open>
  The option table. Delays and the grow factor are JavaScript numbers, taken here as the
  reals they denote. \<open>maxRetries\<close> is only ever compared with the counter \<open>retriesCount\<close>, a
  natural number of at least 1 at that point, so a natural number or \<open>Infinity\<close>
  covers every outcome of that comparison.
\<close>

record config =
  constructor :: factory
  maxReconnectionDelay :: real
  minReconnectionDelay :: real
  reconnectionDelayGrowFactor :: real
  connectionTimeout :: real
  maxRetries :: enat
  debug :: bool

text \<open>
  \<open>DEFAULT_OPTIONS\<close> as the module creates it. Its argument is the global
  \<open>WebSocket\<close> when that is a function, and \<open>NotCallable\<close> (for \<open>null\<close>) otherwise.
\<close>

definition DEFAULT_OPTIONS :: "factory \<Rightarrow> config" where
  "DEFAULT_OPTIONS WebSocket =
     \<lparr>constructor = WebSocket,
      maxReconnectionDelay = 10000,
      minReconnectionDelay = 1500,
      reconnectionDelayGrowFactor = 1.3,
      connectionTimeout = 4000,
      maxRetries = \<infinity>,
      debug = False\<rparr>"

text \<open>
  The caller's \<open>options\<close> object: for each key of the table, the own property of the
  object under that key, or \<open>None\<close> when \<open>hasOwnProperty\<close> is false. Other keys of the
  object are never read.
\<close>

record options =
  opt_constructor :: "factory option"
  opt_maxReconnectionDelay :: "real option"
  opt_minReconnectionDelay :: "real option"
  opt_reconnectionDelayGrowFactor :: "real option"
  opt_connectionTimeout :: "real option"
  opt_maxRetries :: "enat option"
  opt_debug :: "bool option"

text \<open>
  The third argument of the constructor: \<open>null\<close>, or an object (the default \<open>{}\<close> when the
  argument is missing or \<open>undefined\<close>).
\<close>

datatype argument = Null | Options options

definition no_options :: options where
  "no_options =
     \<lparr>opt_constructor = None, opt_maxReconnectionDelay = None,
      opt_minReconnectionDelay = None, opt_reconnectionDelayGrowFactor = None,
      opt_connectionTimeout = None, opt_maxRetries = None, opt_debug = None\<rparr>"

text \<open>
  \<open>Object.keys(config).filter(key => options.hasOwnProperty(key)).forEach(key =>
  config[key] = options[key])\<close>: the table after the assignments.
\<close>

definition assign_options :: "config \<Rightarrow> options \<Rightarrow> config" where
  "assign_options cfg opts =
     \<lparr>constructor = (case opt_constructor opts of None \<Rightarrow> constructor cfg | Some v \<Rightarrow> v),
      maxReconnectionDelay =
        (case opt_maxReconnectionDelay opts of None \<Rightarrow> maxReconnectionDelay cfg | Some v \<Rightarrow> v),
      minReconnectionDelay =
        (case opt_minReconnectionDelay opts of None \<Rightarrow> minReconnectionDelay cfg | Some v \<Rightarrow> v),
      reconnectionDelayGrowFactor =
        (case opt_reconnectionDelayGrowFactor opts of
           None \<Rightarrow> reconnectionDelayGrowFactor cfg | Some v \<Rightarrow> v),
      connectionTimeout =
        (case opt_connectionTimeout opts of None \<Rightarrow> connectionTimeout cfg | Some v \<Rightarrow> v),
      maxRetries = (case opt_maxRetries opts of None \<Rightarrow> maxRetries cfg | Some v \<Rightarrow> v),
      debug = (case opt_debug opts of None \<Rightarrow> debug cfg | Some v \<Rightarrow> v)\<rparr>"

section \<open>Backoff delays\<close>

text \<open>The second argument of \<open>initReconnectionDelay\<close> is the value \<open>Math.random()\<close> returns.\<close>

definition initReconnectionDelay :: "config \<Rightarrow> real \<Rightarrow> real" where
  "initReconnectionDelay cfg random =
     minReconnectionDelay cfg + random * minReconnectionDelay cfg"

text \<open>
  JavaScript numbers are doubles: an operation returns its exact result rounded to the
  nearest double, a tie going to the even significand. A double is an integer multiple,
  of magnitude up to \<open>2^53\<close>, of the unit in the last place \<open>2^(e - 52)\<close>, where
  \<open>2^e \<le> |x| < 2^(e + 1)\<close> and \<open>e\<close> is kept between \<open>-1022\<close> (below \<open>2^(-1022)\<close> the unit stays
  \<open>2^(-1074)\<close>: the subnormal numbers) and \<open>1023\<close>. \<open>exponent\<close> finds \<open>e\<close> by halving or
  doubling. A result that rounds to \<open>2^1024\<close> or beyond is \<open>Infinity\<close> in JavaScript, which
  the reals do not have; \<open>binary64\<close> is the rounding below that.
\<close>

definition round_even :: "real \<Rightarrow> int" where
  "round_even x =
     (let n = \<lfloor>x\<rfloor>; f = x - of_int n
      in if f < 1 / 2 then n else if 1 / 2 < f then n + 1 else if even n then n else n + 1)"

fun halvings :: "nat \<Rightarrow> real \<Rightarrow> nat" where
  "halvings 0 x = 0"
| "halvings (Suc n) x = (if x < 2 then 0 else Suc (halvings n (x / 2)))"

fun doublings :: "nat \<Rightarrow> real \<Rightarrow> nat" where
  "doublings 0 x = 0"
| "doublings (Suc n) x = (if 1 \<le> x then 0 else Suc (doublings n (2 * x)))"

definition exponent :: "real \<Rightarrow> int" where
  "exponent x =
     (if 1 \<le> \<bar>x\<bar> then int (halvings 1023 \<bar>x\<bar>) else - int (doublings 1022 \<bar>x\<bar>))"

definition ulp :: "real \<Rightarrow> real" where
  "ulp x = 2 powi (exponent x - 52)"

definition binary64 :: "real \<Rightarrow> real" where
  "binary64 x = ulp x * of_int (round_even (x / ulp x))"

text \<open>
  The definitions of the delays above and below compute with the exact results.
  \<open>initReconnectionDelay_double\<close> is the expression of \<open>initReconnectionDelay\<close> with the
  result of each of its two operations rounded: what the code computes from doubles
  \<open>minReconnectionDelay\<close> and \<open>random\<close>.
\<close>

definition initReconnectionDelay_double :: "config \<Rightarrow> real \<Rightarrow> real" where
  "initReconnectionDelay_double cfg random =
     binary64 (minReconnectionDelay cfg + binary64 (random * minReconnectionDelay cfg))"

definition updateReconnectionDelay :: "config \<Rightarrow> real \<Rightarrow> real" where
  "updateReconnectionDelay cfg previousDelay =
     (let newDelay = previousDelay * reconnectionDelayGrowFactor cfg
      in if newDelay > maxReconnectionDelay cfg then maxReconnectionDelay cfg else newDelay)"

section \<open>Sockets, timers and the state of an instance\<close>

datatype err_code = ETIMEDOUT | EHOSTDOWN

text \<open>
  What a pending timer runs when it fires: the connection-timeout callback of
  \<open>connect\<close>, \<open>connect\<close> itself (a scheduled retry), or the deferred dispatch of
  \<open>emitError\<close>.
\<close>

datatype timer_action = ConnectingTimeout | Connect | EmitError err_code

record timer =
  handle :: nat
  action :: timer_action
  delay :: real

text \<open>
  A socket is an object of the environment. The model keeps what the wrapper does to
  it, the calls in the order they are made, and one thing of its own life: whether it
  is still connecting, open, or has fired \<open>close\<close>.
\<close>

datatype 'l handler = OpenHandler | CloseHandler | Listener 'l

datatype ('l, 'o) sock_call =
  AddEventListener string "'l handler" "'o option"
| RemoveEventListener string 'l 'o
| Close

datatype ready = CONNECTING | OPEN | CLOSED

record ('l, 'o) socket =
  readyState :: ready
  calls :: "('l, 'o) sock_call list"

text \<open>
  \<open>listeners\<close> is a plain object used as a dictionary from event type to an array of
  \<open>[listener, options]\<close> pairs. The model keeps its own properties, in the order
  \<open>Object.keys\<close> lists them, and its prototype: \<open>None\<close> for \<open>Object.prototype\<close>, which it
  has at first, or the array that an assignment to the key \<open>__proto__\<close> has put in its place.
\<close>

record ('l, 'o) registry =
  own :: "(string \<times> ('l \<times> 'o) list) list"
  proto :: "('l \<times> 'o) list option"

text \<open>
  The variables the constructor's closures share, then the environment: every socket
  the factory has returned (\<open>ws\<close> is an index into them, \<open>None\<close> while unassigned),
  the pending timers, the next timer handle, and the errors dispatched so far, each
  with the \<open>error\<close> listeners that were called, in order.
\<close>

record ('l, 'o) state =
  ws :: "nat option"
  connectingTimeout :: "nat option"
  reconnectDelay :: real
  retriesCount :: nat
  shouldRetry :: bool
  listeners :: "('l, 'o) registry"
  sockets :: "('l, 'o) socket list"
  timers :: "timer list"
  next_handle :: nat
  dispatched :: "(err_code \<times> 'l list) list"

definition initial :: "('l, 'o) state" where
  "initial =
     \<lparr>ws = None, connectingTimeout = None, reconnectDelay = 0, retriesCount = 0,
      shouldRetry = True, listeners = \<lparr>own = [], proto = None\<rparr>, sockets = [],
      timers = [], next_handle = 0, dispatched = []\<rparr>"

subsection \<open>The environment's primitives\<close>

definition setTimeout :: "timer_action \<Rightarrow> real \<Rightarrow> ('l, 'o) state \<Rightarrow> ('l, 'o) state" where
  "setTimeout a d s =
     s\<lparr>timers := timers s @ [\<lparr>handle = next_handle s, action = a, delay = d\<rparr>],
       next_handle := Suc (next_handle s)\<rparr>"

definition clearTimeout :: "nat option \<Rightarrow> ('l, 'o) state \<Rightarrow> ('l, 'o) state" where
  "clearTimeout h s =
     (case h of
        None \<Rightarrow> s
      | Some n \<Rightarrow> s\<lparr>timers := filter (\<lambda>t. handle t \<noteq> n) (timers s)\<rparr>)"

text \<open>The calls \<open>cs\<close> made on socket \<open>i\<close>.\<close>

definition socket_calls ::
  "nat \<Rightarrow> ('l, 'o) sock_call list \<Rightarrow> ('l, 'o) state \<Rightarrow> ('l, 'o) state" where
  "socket_calls i cs s =
     (if i < length (sockets s)
      then s\<lparr>sockets := (sockets s)[i := (sockets s ! i)\<lparr>calls := calls (sockets s ! i) @ cs\<rparr>]\<rparr>
      else s)"

text \<open>
  A method call on the variable \<open>ws\<close>: a \<open>TypeError\<close> while the variable is
  unassigned.
\<close>

definition on_ws ::
  "('l, 'o) sock_call list \<Rightarrow> ('l, 'o) state \<Rightarrow> exn + ('l, 'o) state" where
  "on_ws cs s =
     (case ws s of
        None \<Rightarrow> Inl (TypeError ''Cannot read properties of undefined'')
      | Some i \<Rightarrow> Inr (socket_calls i cs s))"

subsection \<open>The listener registry\<close>

text \<open>
  \<open>Object.keys\<close> lists the own keys that are array indices first, in ascending numeric
  order, then the other keys in the order in which they were created. An array index is
  the decimal numeral, without sign or leading zero, of an integer below \<open>2^32 - 1\<close>.
\<close>

definition digit :: "char \<Rightarrow> nat option" where
  "digit c =
     map_of [(CHR ''0'', 0), (CHR ''1'', 1), (CHR ''2'', 2), (CHR ''3'', 3), (CHR ''4'', 4),
             (CHR ''5'', 5), (CHR ''6'', 6), (CHR ''7'', 7), (CHR ''8'', 8), (CHR ''9'', 9)] c"

fun decimal :: "nat \<Rightarrow> string \<Rightarrow> nat option" where
  "decimal n [] = Some n"
| "decimal n (c # cs) = (case digit c of None \<Rightarrow> None | Some d \<Rightarrow> decimal (10 * n + d) cs)"

definition index_of :: "string \<Rightarrow> nat option" where
  "index_of k =
     (case k of
        [] \<Rightarrow> None
      | c # cs \<Rightarrow>
          if c = CHR ''0'' \<and> cs \<noteq> [] then None
          else (case decimal 0 k of
                  None \<Rightarrow> None
                | Some n \<Rightarrow> if n < 4294967295 then Some n else None))"

text \<open>A new key \<open>k\<close> is listed before an existing key \<open>k'\<close>.\<close>

definition precedes :: "string \<Rightarrow> string \<Rightarrow> bool" where
  "precedes k k' =
     (case index_of k of
        None \<Rightarrow> False
      | Some n \<Rightarrow> (case index_of k' of None \<Rightarrow> True | Some n' \<Rightarrow> n < n'))"

fun insert_key :: "string \<Rightarrow> 'v \<Rightarrow> (string \<times> 'v) list \<Rightarrow> (string \<times> 'v) list" where
  "insert_key k v [] = [(k, v)]"
| "insert_key k v ((k', v') # kvs) =
     (if precedes k k' then (k, v) # (k', v') # kvs else (k', v') # insert_key k v kvs)"

fun replace_key :: "string \<Rightarrow> 'v \<Rightarrow> (string \<times> 'v) list \<Rightarrow> (string \<times> 'v) list" where
  "replace_key k v [] = []"
| "replace_key k v ((k', v') # kvs) =
     (if k' = k then (k, v) # kvs else (k', v') # replace_key k v kvs)"

text \<open>
  \<open>assign\<close> is the assignment \<open>o[k] = v\<close> to an own data property: an existing key keeps its
  place, a new one is created.
\<close>

definition assign :: "string \<Rightarrow> 'v \<Rightarrow> (string \<times> 'v) list \<Rightarrow> (string \<times> 'v) list" where
  "assign k v kvs = (if k \<in> set (map fst kvs) then replace_key k v kvs else insert_key k v kvs)"

text \<open>
  What \<open>listeners[type]\<close> evaluates to, as far as the code tells the cases apart: one of
  the arrays of pairs, a pair itself, or something that is not an array. An own property
  is one of the arrays. Without it the prototype is asked. While that is
  \<open>Object.prototype\<close>, every name gives \<open>undefined\<close> or a function or, for \<open>__proto__\<close>, the
  prototype: no array. Once an array \<open>P\<close> of pairs has become the prototype, \<open>__proto__\<close>
  gives \<open>P\<close>, an array index below the length of \<open>P\<close> gives the pair stored there, and
  every other name (\<open>length\<close>, the methods of arrays, names nobody has) no array.
\<close>

datatype ('l, 'o) found = Array "('l \<times> 'o) list" | Element | Other

definition lookup :: "('l, 'o) registry \<Rightarrow> string \<Rightarrow> ('l, 'o) found" where
  "lookup reg type =
     (case map_of (own reg) type of
        Some ls \<Rightarrow> Array ls
      | None \<Rightarrow>
          (case proto reg of
             None \<Rightarrow> Other
           | Some P \<Rightarrow>
               if type = ''__proto__'' then Array P
               else (case index_of type of
                       None \<Rightarrow> Other
                     | Some i \<Rightarrow> if i < length P then Element else Other)))"

text \<open>
  \<open>listeners[type] = v\<close> for an array \<open>v\<close>, and \<open>listeners[type].push(...)\<close> seen as the
  replacement of the array found by the longer one. The key \<open>__proto__\<close> is the accessor
  inherited from \<open>Object.prototype\<close>: assigning an object to it replaces the prototype
  and creates no own property. Every other key becomes or stays an own property.
\<close>

definition store ::
  "string \<Rightarrow> ('l \<times> 'o) list \<Rightarrow> ('l, 'o) registry \<Rightarrow> ('l, 'o) registry" where
  "store type v reg =
     (if type = ''__proto__'' then reg\<lparr>proto := Some v\<rparr>
      else reg\<lparr>own := assign type v (own reg)\<rparr>)"

text \<open>
  The calls of \<open>reassignEventListeners\<close>: \<open>Object.keys(listeners)\<close> are the own keys, and
  under each the pairs in the order of the array.
\<close>

definition registry_calls :: "('l, 'o) registry \<Rightarrow> ('l, 'o) sock_call list" where
  "registry_calls reg =
     concat (map (\<lambda>(type, ls). map (\<lambda>(l, opt). AddEventListener type (Listener l) (Some opt)) ls)
       (own reg))"

definition reassignEventListeners :: "nat \<Rightarrow> ('l, 'o) state \<Rightarrow> ('l, 'o) state" where
  "reassignEventListeners i s = socket_calls i (registry_calls (listeners s)) s"

subsection \<open>emitError and connect\<close>

definition emitError :: "err_code \<Rightarrow> ('l, 'o) state \<Rightarrow> ('l, 'o) state" where
  "emitError code s = setTimeout (EmitError code) 0 s"

text \<open>
  \<open>new config.constructor(url, protocols)\<close>, the first thing \<open>connect\<close> does: the exception
  it throws, if any. The entry is read from the table at the time of the call.
\<close>

definition new_socket :: "config \<Rightarrow> exn option" where
  "new_socket cfg =
     (case constructor cfg of
        Callable f \<Rightarrow> None
      | Raising f e \<Rightarrow> Some e
      | NotConstructor f \<Rightarrow> Some (TypeError ''config.constructor is not a constructor'')
      | NotCallable \<Rightarrow> Some (TypeError ''config.constructor is not a constructor''))"

text \<open>
  \<open>connect\<close>: a new socket from the factory becomes \<open>ws\<close>, the timeout timer is
  started and its handle kept, the wrapper's own \<open>open\<close> and \<open>close\<close> handlers are
  attached, then every registered listener. (Logging and the forwarding of the
  socket's properties to the wrapper touch none of these variables.) When the factory
  call throws, nothing has been assigned yet: the variables are as they were, and the
  exception, \<open>new_socket cfg\<close>, goes to whoever ran \<open>connect\<close>, the constructor or the host
  that fired the retry timer.
\<close>

definition connect :: "config \<Rightarrow> ('l, 'o) state \<Rightarrow> ('l, 'o) state" where
  "connect cfg s =
     (case new_socket cfg of
        Some e \<Rightarrow> s
      | None \<Rightarrow>
          let i = length (sockets s);
              s1 = s\<lparr>ws := Some i,
                     sockets := sockets s @ [\<lparr>readyState = CONNECTING, calls = []\<rparr>]\<rparr>;
              s2 = (setTimeout ConnectingTimeout (connectionTimeout cfg) s1)
                     \<lparr>connectingTimeout := Some (next_handle s1)\<rparr>;
              s3 = socket_calls i [AddEventListener ''open'' OpenHandler None,
                                   AddEventListener ''close'' CloseHandler None] s2
          in reassignEventListeners i s3)"

subsection \<open>The handlers and callbacks\<close>

definition open_handler :: "config \<Rightarrow> real \<Rightarrow> ('l, 'o) state \<Rightarrow> ('l, 'o) state" where
  "open_handler cfg random s =
     (clearTimeout (connectingTimeout s) s)
       \<lparr>reconnectDelay := initReconnectionDelay cfg random, retriesCount := 0\<rparr>"

definition close_handler :: "config \<Rightarrow> real \<Rightarrow> ('l, 'o) state \<Rightarrow> ('l, 'o) state" where
  "close_handler cfg random s =
     (let s1 = s\<lparr>retriesCount := Suc (retriesCount s)\<rparr>
      in if enat (retriesCount s1) > maxRetries cfg then emitError EHOSTDOWN s1
         else
           let s2 = s1\<lparr>reconnectDelay :=
                       (if reconnectDelay s1 = 0 then initReconnectionDelay cfg random
                        else updateReconnectionDelay cfg (reconnectDelay s1))\<rparr>
           in if shouldRetry s2 then setTimeout Connect (reconnectDelay s2) s2 else s2)"

definition timeout_callback :: "('l, 'o) state \<Rightarrow> exn + ('l, 'o) state" where
  "timeout_callback s =
     (case on_ws [Close] s of
        Inl e \<Rightarrow> Inl e
      | Inr s1 \<Rightarrow> Inr (emitError ETIMEDOUT s1))"

text \<open>
  The deferred body of \<open>emitError\<close>: when \<open>listeners.error\<close> is an array, its listeners
  are called in order; then \<open>ws.onerror\<close> is read.
\<close>

definition error_callback :: "err_code \<Rightarrow> ('l, 'o) state \<Rightarrow> exn + ('l, 'o) state" where
  "error_callback code s =
     (let fns = (case lookup (listeners s) ''error'' of Array ls \<Rightarrow> map fst ls | _ \<Rightarrow> [])
      in on_ws [] (s\<lparr>dispatched := dispatched s @ [(code, fns)]\<rparr>))"

subsection \<open>The public methods\<close>

definition close :: "('l, 'o) state \<Rightarrow> exn + ('l, 'o) state" where
  "close s = on_ws [Close] (s\<lparr>shouldRetry := False\<rparr>)"

text \<open>
  \<open>addEventListener\<close> and \<open>removeEventListener\<close> go through the array they find with a
  callback that takes each element apart as \<open>[l]\<close>. The elements of one of the arrays of
  the registry are pairs. When \<open>listeners[type]\<close> is a pair itself, its first element is a
  listener, which cannot be taken apart: a \<open>TypeError\<close>, thrown before anything is
  changed.
\<close>

definition addEventListener ::
  "string \<Rightarrow> 'l \<Rightarrow> 'o \<Rightarrow> ('l, 'o) state \<Rightarrow> exn + ('l, 'o) state" where
  "addEventListener type listener opt s =
     (case lookup (listeners s) type of
        Element \<Rightarrow> Inl (TypeError ''listener is not iterable'')
      | Array ls \<Rightarrow>
          on_ws [AddEventListener type (Listener listener) (Some opt)]
            (if list_ex (\<lambda>(l, _). l = listener) ls then s
             else s\<lparr>listeners := store type (ls @ [(listener, opt)]) (listeners s)\<rparr>)
      | Other \<Rightarrow>
          on_ws [AddEventListener type (Listener listener) (Some opt)]
            (s\<lparr>listeners := store type [(listener, opt)] (listeners s)\<rparr>))"

definition removeEventListener ::
  "string \<Rightarrow> 'l \<Rightarrow> 'o \<Rightarrow> ('l, 'o) state \<Rightarrow> exn + ('l, 'o) state" where
  "removeEventListener type listener opt s =
     (case lookup (listeners s) type of
        Element \<Rightarrow> Inl (TypeError ''listener is not iterable'')
      | Array ls \<Rightarrow>
          on_ws [RemoveEventListener type listener opt]
            (s\<lparr>listeners := store type (filter (\<lambda>(l, _). l \<noteq> listener) ls) (listeners s)\<rparr>)
      | Other \<Rightarrow> on_ws [RemoveEventListener type listener opt] s)"

section \<open>Construction\<close>

text \<open>
  The constructor, given whether \<open>this instanceof ReconnectingWebsocket\<close> holds, the
  current content of the shared table \<open>DEFAULT_OPTIONS\<close> and the caller's options.
  It returns the content of the table afterwards, and the exception thrown or the new
  instance. \<open>config\<close> is the table itself, not a copy: the instance reads its
  configuration from the table from then on. With \<open>null\<close> for the options, the first
  \<open>options.hasOwnProperty(key)\<close> throws, before any key is assigned. After the \<open>typeof\<close>
  test the constructor runs \<open>connect\<close>, and what the factory call throws there leaves the
  constructor.
\<close>

definition ReconnectingWebsocket ::
  "bool \<Rightarrow> config \<Rightarrow> argument \<Rightarrow> config \<times> (exn + ('l, 'o) state)" where
  "ReconnectingWebsocket is_instance table arg =
     (if \<not> is_instance
      then (table, Inl (TypeError
        ''Failed to construct 'ReconnectingWebSocket': Please use the 'new' operator''))
      else
        case arg of
          Null \<Rightarrow>
            (table, Inl (TypeError ''Cannot read properties of null (reading 'hasOwnProperty')''))
        | Options opts \<Rightarrow>
            let config = assign_options table opts
            in if constructor config = NotCallable
               then (config, Inl (TypeError
                       ''WebSocket constructor not set. Set `options.constructor`''))
               else case new_socket config of
                      Some e \<Rightarrow> (config, Inl e)
                    | None \<Rightarrow> (config, Inr (connect config initial)))"

section \<open>Events\<close>

text \<open>
  What can happen to an instance: a socket fires \<open>open\<close> or \<open>close\<close> (with the value
  \<open>Math.random()\<close> would return in the handler), a pending timer fires, or the caller
  calls a method. A socket fires \<open>open\<close> only while connecting and \<open>close\<close> once; an
  event that cannot happen leaves the state as it is.

  \<open>step\<close> gives the variables after the event. An exception does not end an instance:
  the one a method throws goes to the caller, the one a retry's factory call throws to the
  host, and both are thrown before any variable is changed, so the instance is left as it
  was (\<open>settle\<close>; for a retry, \<open>connect\<close> itself). Only the dereference of \<open>ws\<close> while it is
  unassigned is kept as the result \<open>Inl\<close> of \<open>step\<close>: there is no instance then.
\<close>

datatype ('l, 'o) event =
  SocketOpen nat real
| SocketClose nat real
| TimerFires nat
| CallClose
| CallAddEventListener string 'l 'o
| CallRemoveEventListener string 'l 'o

definition set_readyState :: "nat \<Rightarrow> ready \<Rightarrow> ('l, 'o) state \<Rightarrow> ('l, 'o) state" where
  "set_readyState i r s = s\<lparr>sockets := (sockets s)[i := (sockets s ! i)\<lparr>readyState := r\<rparr>]\<rparr>"

definition ready_of :: "('l, 'o) state \<Rightarrow> nat \<Rightarrow> ready" where
  "ready_of s i = (if i < length (sockets s) then readyState (sockets s ! i) else CLOSED)"

definition settle :: "('l, 'o) state \<Rightarrow> exn + ('l, 'o) state \<Rightarrow> exn + ('l, 'o) state" where
  "settle s r = (case r of Inr s' \<Rightarrow> Inr s' | Inl e \<Rightarrow> (if ws s = None then Inl e else Inr s))"

definition fire :: "config \<Rightarrow> timer_action \<Rightarrow> ('l, 'o) state \<Rightarrow> exn + ('l, 'o) state" where
  "fire cfg a s =
     (case a of
        ConnectingTimeout \<Rightarrow> timeout_callback s
      | Connect \<Rightarrow> Inr (connect cfg s)
      | EmitError code \<Rightarrow> error_callback code s)"

definition step :: "config \<Rightarrow> ('l, 'o) state \<Rightarrow> ('l, 'o) event \<Rightarrow> exn + ('l, 'o) state" where
  "step cfg s e =
     (case e of
        SocketOpen i random \<Rightarrow>
          if ready_of s i = CONNECTING
          then Inr (open_handler cfg random (set_readyState i OPEN s)) else Inr s
      | SocketClose i random \<Rightarrow>
          if ready_of s i \<noteq> CLOSED
          then Inr (close_handler cfg random (set_readyState i CLOSED s)) else Inr s
      | TimerFires h \<Rightarrow>
          (case find (\<lambda>t. handle t = h) (timers s) of
             None \<Rightarrow> Inr s
           | Some t \<Rightarrow> fire cfg (action t) (clearTimeout (Some h) s))
      | CallClose \<Rightarrow> settle s (close s)
      | CallAddEventListener type l opt \<Rightarrow> settle s (addEventListener type l opt s)
      | CallRemoveEventListener type l opt \<Rightarrow> settle s (removeEventListener type l opt s))"

fun run :: "config \<Rightarrow> ('l, 'o) state \<Rightarrow> ('l, 'o) event list \<Rightarrow> exn + ('l, 'o) state" where
  "run cfg s [] = Inr s"
| "run cfg s (e # es) = (case step cfg s e of Inl x \<Rightarrow> Inl x | Inr s' \<Rightarrow> run cfg s' es)"

section \<open>Observations used by the properties\<close>

text \<open>The state an operation returns, \<open>None\<close> when it throws.\<close>

definition returned :: "exn + 'a \<Rightarrow> 'a option" where
  "returned r = (case r of Inl _ \<Rightarrow> None | Inr a \<Rightarrow> Some a)"

text \<open>The interval \<open>[m, 2m)\<close> for \<open>m = minReconnectionDelay\<close>.\<close>

definition within_initial_range :: "config \<Rightarrow> real \<Rightarrow> bool" where
  "within_initial_range cfg d =
     (minReconnectionDelay cfg \<le> d \<and> d < 2 * minReconnectionDelay cfg)"

text \<open>The interval \<open>[m, 2m]\<close>, both ends included.\<close>

definition within_closed_range :: "config \<Rightarrow> real \<Rightarrow> bool" where
  "within_closed_range cfg d =
     (minReconnectionDelay cfg \<le> d \<and> d \<le> 2 * minReconnectionDelay cfg)"

text \<open>The pending timers that will run a given action.\<close>

definition pending :: "timer_action \<Rightarrow> ('l, 'o) state \<Rightarrow> timer list" where
  "pending a s = filter (\<lambda>t. action t = a) (timers s)"

text \<open>
  How often an error with a given code has been emitted: the deferred dispatches still
  pending plus those already carried out.
\<close>

definition emitted :: "err_code \<Rightarrow> ('l, 'o) state \<Rightarrow> nat" where
  "emitted c s =
     length (pending (EmitError c) s) + length (filter (\<lambda>d. fst d = c) (dispatched s))"

definition readies :: "('l, 'o) state \<Rightarrow> ready list" where
  "readies s = map readyState (sockets s)"

text \<open>The events that come from a socket.\<close>

fun is_socket_event :: "('l, 'o) event \<Rightarrow> bool" where
  "is_socket_event (SocketOpen i r) = True"
| "is_socket_event (SocketClose i r) = True"
| "is_socket_event e = False"

text \<open>
  The array the registry has as its own property under a type, empty when there is none.
\<close>

definition entries :: "('l, 'o) registry \<Rightarrow> string \<Rightarrow> ('l \<times> 'o) list" where
  "entries reg type = (case map_of (own reg) type of None \<Rightarrow> [] | Some ls \<Rightarrow> ls)"

text \<open>
  The caller's listeners that a sequence of calls adds to a socket for one event type, in
  the order of the calls.
\<close>

fun added_for :: "string \<Rightarrow> ('l, 'o) sock_call list \<Rightarrow> 'l list" where
  "added_for type [] = []"
| "added_for type (AddEventListener type' (Listener l) opt # cs) =
     (if type' = type then l # added_for type cs else added_for type cs)"
| "added_for type (c # cs) = added_for type cs"

text \<open>No type occurs twice among the own keys, no listener twice under a type.\<close>

definition registry_ok :: "('l, 'o) registry \<Rightarrow> bool" where
  "registry_ok reg =
     (distinct (map fst (own reg)) \<and> list_all (\<lambda>kv. distinct (map fst (snd kv))) (own reg))"

text \<open>
  The draw an event carries lies in \<open>[0, 1)\<close>, as a value of \<open>Math.random()\<close> does.
\<close>

fun draw_ok :: "('l, 'o) event \<Rightarrow> bool" where
  "draw_ok (SocketOpen i r) = (0 \<le> r \<and> r < 1)"
| "draw_ok (SocketClose i r) = (0 \<le> r \<and> r < 1)"
| "draw_ok e = True"

fun is_open :: "('l, 'o) event \<Rightarrow> bool" where
  "is_open (SocketOpen i r) = True"
| "is_open e = False"

text \<open>
  The event is a \<open>close\<close> that a socket can fire and whose handler gets as far as computing
  a delay (the retry budget is not exceeded).
\<close>

fun computes_delay :: "config \<Rightarrow> ('l, 'o) state \<Rightarrow> ('l, 'o) event \<Rightarrow> bool" where
  "computes_delay cfg s (SocketClose i r) =
     (ready_of s i \<noteq> CLOSED \<and> \<not> enat (Suc (retriesCount s)) > maxRetries cfg)"
| "computes_delay cfg s e = False"

text \<open>The backoff delays computed along a run, in order.\<close>

fun delay_trace :: "config \<Rightarrow> ('l, 'o) state \<Rightarrow> ('l, 'o) event list \<Rightarrow> real list" where
  "delay_trace cfg s [] = []"
| "delay_trace cfg s (e # es) =
     (case step cfg s e of
        Inl x \<Rightarrow> []
      | Inr s' \<Rightarrow>
          (if computes_delay cfg s e then [reconnectDelay s'] else []) @ delay_trace cfg s' es)"

text \<open>The delay variable holds the sentinel or a positive delay up to the cap.\<close>

definition delay_ok :: "config \<Rightarrow> ('l, 'o) state \<Rightarrow> bool" where
  "delay_ok cfg s =
     (reconnectDelay s = 0 \<or> (0 < reconnectDelay s \<and> reconnectDelay s \<le> maxReconnectionDelay cfg))"

text \<open>Some socket has not fired \<open>close\<close> yet.\<close>

definition live :: "('l, 'o) state \<Rightarrow> bool" where
  "live s = list_ex (\<lambda>k. k \<noteq> CLOSED) (readies s)"

text \<open>
  What holds in every state a constructed instance reaches: \<open>ws\<close> is assigned; only the
  newest socket can still fire events; timer handles are distinct and below the next handle;
  at most one retry is pending, and none while a socket is live; \<open>EHOSTDOWN\<close> has been
  emitted at most once, and not at all while a socket is live or a retry is pending.
\<close>

definition inv :: "('l, 'o) state \<Rightarrow> bool" where
  "inv s =
     (ws s \<noteq> None
      \<and> list_all (\<lambda>k. k = CLOSED) (butlast (readies s))
      \<and> distinct (map handle (timers s))
      \<and> list_all (\<lambda>t. handle t < next_handle s) (timers s)
      \<and> length (pending Connect s) \<le> 1
      \<and> (live s \<longrightarrow> pending Connect s = [] \<and> emitted EHOSTDOWN s = 0)
      \<and> (pending Connect s \<noteq> [] \<longrightarrow> emitted EHOSTDOWN s = 0)
      \<and> emitted EHOSTDOWN s \<le> 1)"


text \<open>The event is the caller removing a given listener of a given type.\<close>

fun removes :: "string \<Rightarrow> 'l \<Rightarrow> ('l, 'o) event \<Rightarrow> bool" where
  "removes type l (CallRemoveEventListener type' l' opt) = (type' = type \<and> l' = l)"
| "removes type l e = False"

section \<open>Properties\<close>

subsection \<open>The handlers in closed form\<close>

lemma new_socket_simps [simp]:
  "new_socket (DEFAULT_OPTIONS (Callable f)) = None"
  "new_socket (cfg\<lparr>maxReconnectionDelay := a\<rparr>) = new_socket cfg"
  "new_socket (cfg\<lparr>minReconnectionDelay := a\<rparr>) = new_socket cfg"
  "new_socket (cfg\<lparr>reconnectionDelayGrowFactor := a\<rparr>) = new_socket cfg"
  "new_socket (cfg\<lparr>connectionTimeout := a\<rparr>) = new_socket cfg"
  "new_socket (cfg\<lparr>maxRetries := n\<rparr>) = new_socket cfg"
  "new_socket (cfg\<lparr>debug := b\<rparr>) = new_socket cfg"
  "new_socket \<lparr>constructor = Callable f, maxReconnectionDelay = a1,
     minReconnectionDelay = a2, reconnectionDelayGrowFactor = a3, connectionTimeout = a4,
     maxRetries = n, debug = b\<rparr> = None"
  by (simp_all add: new_socket_def DEFAULT_OPTIONS_def)

lemma connect_thrown: "new_socket cfg = Some e \<Longrightarrow> connect cfg s = s"
  by (simp add: connect_def)

lemma connect_kept [simp]:
  "reconnectDelay (connect cfg s) = reconnectDelay s"
  "retriesCount (connect cfg s) = retriesCount s"
  "shouldRetry (connect cfg s) = shouldRetry s"
  "listeners (connect cfg s) = listeners s"
  "dispatched (connect cfg s) = dispatched s"
  by (simp_all add: connect_def Let_def setTimeout_def socket_calls_def
      reassignEventListeners_def split: option.splits)

lemma connect_changed:
  "ws (connect cfg s) = (if new_socket cfg = None then Some (length (sockets s)) else ws s)"
  "connectingTimeout (connect cfg s) =
     (if new_socket cfg = None then Some (next_handle s) else connectingTimeout s)"
  "sockets (connect cfg s) = sockets s @
     (if new_socket cfg = None
      then [\<lparr>readyState = CONNECTING,
             calls = [AddEventListener ''open'' OpenHandler None,
                      AddEventListener ''close'' CloseHandler None]
                     @ registry_calls (listeners s)\<rparr>]
      else [])"
  "timers (connect cfg s) = timers s @
     (if new_socket cfg = None
      then [\<lparr>handle = next_handle s, action = ConnectingTimeout,
             delay = connectionTimeout cfg\<rparr>]
      else [])"
  "next_handle (connect cfg s) =
     (if new_socket cfg = None then Suc (next_handle s) else next_handle s)"
  by (simp_all add: connect_def Let_def setTimeout_def socket_calls_def
      reassignEventListeners_def split: option.splits)

lemma connect_eq:
  "new_socket cfg = None \<Longrightarrow>
   connect cfg s =
     s\<lparr>ws := Some (length (sockets s)),
       connectingTimeout := Some (next_handle s),
       sockets := sockets s @
         [\<lparr>readyState = CONNECTING,
           calls = [AddEventListener ''open'' OpenHandler None,
                    AddEventListener ''close'' CloseHandler None] @ registry_calls (listeners s)\<rparr>],
       timers := timers s @
         [\<lparr>handle = next_handle s, action = ConnectingTimeout, delay = connectionTimeout cfg\<rparr>],
       next_handle := Suc (next_handle s)\<rparr>"
  by (simp add: connect_def Let_def setTimeout_def socket_calls_def reassignEventListeners_def)

lemma close_handler_eq:
  "close_handler cfg r s =
    (if enat (Suc (retriesCount s)) > maxRetries cfg
     then s\<lparr>retriesCount := Suc (retriesCount s),
            timers := timers s @
              [\<lparr>handle = next_handle s, action = EmitError EHOSTDOWN, delay = 0\<rparr>],
            next_handle := Suc (next_handle s)\<rparr>
     else if shouldRetry s
     then s\<lparr>retriesCount := Suc (retriesCount s),
            reconnectDelay :=
              (if reconnectDelay s = 0 then initReconnectionDelay cfg r
               else updateReconnectionDelay cfg (reconnectDelay s)),
            timers := timers s @
              [\<lparr>handle = next_handle s, action = Connect,
                delay = (if reconnectDelay s = 0 then initReconnectionDelay cfg r
                         else updateReconnectionDelay cfg (reconnectDelay s))\<rparr>],
            next_handle := Suc (next_handle s)\<rparr>
     else s\<lparr>retriesCount := Suc (retriesCount s),
            reconnectDelay :=
              (if reconnectDelay s = 0 then initReconnectionDelay cfg r
               else updateReconnectionDelay cfg (reconnectDelay s))\<rparr>)"
  by (simp add: close_handler_def Let_def setTimeout_def emitError_def)

lemma open_handler_eq:
  "open_handler cfg r s =
     s\<lparr>timers := (case connectingTimeout s of None \<Rightarrow> timers s
                   | Some n \<Rightarrow> filter (\<lambda>t. handle t \<noteq> n) (timers s)),
       reconnectDelay := initReconnectionDelay cfg r, retriesCount := 0\<rparr>"
  by (simp add: open_handler_def clearTimeout_def split: option.splits)

lemma step_SocketClose:
  "ready_of s i \<noteq> CLOSED \<Longrightarrow>
     step cfg s (SocketClose i r) = Inr (close_handler cfg r (set_readyState i CLOSED s))"
  by (simp add: step_def)

lemma step_SocketOpen:
  "ready_of s i = CONNECTING \<Longrightarrow>
     step cfg s (SocketOpen i r) = Inr (open_handler cfg r (set_readyState i OPEN s))"
  by (simp add: step_def)

lemma set_readyState_fields [simp]:
  "ws (set_readyState i k s) = ws s"
  "connectingTimeout (set_readyState i k s) = connectingTimeout s"
  "reconnectDelay (set_readyState i k s) = reconnectDelay s"
  "retriesCount (set_readyState i k s) = retriesCount s"
  "shouldRetry (set_readyState i k s) = shouldRetry s"
  "listeners (set_readyState i k s) = listeners s"
  "timers (set_readyState i k s) = timers s"
  "next_handle (set_readyState i k s) = next_handle s"
  "dispatched (set_readyState i k s) = dispatched s"
  "length (sockets (set_readyState i k s)) = length (sockets s)"
  by (simp_all add: set_readyState_def)

subsection \<open>Rounding to the nearest double\<close>

lemma halvings_numeral:
  "halvings (numeral k) x = (if x < 2 then 0 else Suc (halvings (pred_numeral k) (x / 2)))"
  by (simp add: numeral_eq_Suc)

lemma doublings_numeral:
  "doublings (numeral k) x = (if 1 \<le> x then 0 else Suc (doublings (pred_numeral k) (2 * x)))"
  by (simp add: numeral_eq_Suc)

lemma round_even_of_int [simp]: "round_even (of_int n) = n"
  by (simp add: round_even_def Let_def)

lemma round_even_numeral [simp]: "round_even (numeral k) = numeral k"
  using round_even_of_int [of "numeral k"] by simp

lemma round_even_mono:
  assumes "x \<le> y" shows "round_even x \<le> round_even y"
proof (cases "\<lfloor>x\<rfloor> = \<lfloor>y\<rfloor>")
  case True
  then show ?thesis using assms by (auto simp: round_even_def Let_def)
next
  case False
  with assms have "\<lfloor>x\<rfloor> < \<lfloor>y\<rfloor>" using floor_mono [OF assms] by linarith
  then have "\<lfloor>x\<rfloor> + 1 \<le> \<lfloor>y\<rfloor>" by simp
  moreover have "round_even x \<le> \<lfloor>x\<rfloor> + 1" by (auto simp: round_even_def Let_def)
  moreover have "\<lfloor>y\<rfloor> \<le> round_even y" by (auto simp: round_even_def Let_def)
  ultimately show ?thesis by linarith
qed

lemma halvings_lower: "1 \<le> x \<Longrightarrow> 2 ^ halvings n x \<le> x"
  by (induction n x rule: halvings.induct) auto

lemma halvings_upper: "halvings n x < n \<Longrightarrow> x < 2 ^ Suc (halvings n x)"
  by (induction n x rule: halvings.induct) (auto split: if_splits)

lemma halvings_mono: "x \<le> y \<Longrightarrow> halvings n x \<le> halvings n y"
  by (induction n x arbitrary: y rule: halvings.induct) (auto simp: numeral_eq_Suc)

lemma halvings_le: "halvings n x \<le> n"
  by (induction n x rule: halvings.induct) auto

lemma doublings_lower: "doublings n x < n \<Longrightarrow> 1 \<le> x * 2 ^ doublings n x"
  by (induction n x rule: doublings.induct) (auto split: if_splits simp: mult.assoc)

lemma doublings_upper: "x < 2 \<Longrightarrow> x * 2 ^ doublings n x < 2"
  by (induction n x rule: doublings.induct) (auto simp: mult.assoc)

lemma doublings_anti: "x \<le> y \<Longrightarrow> doublings n y \<le> doublings n x"
  by (induction n x arbitrary: y rule: doublings.induct) auto

lemma doublings_le: "doublings n x \<le> n"
  by (induction n x rule: doublings.induct) auto

lemma exponent_ge: "- 1022 \<le> exponent x"
  using doublings_le [of 1022 "\<bar>x\<bar>"] by (simp add: exponent_def)

lemma exponent_le: "exponent x \<le> 1023"
  using halvings_le [of 1023 "\<bar>x\<bar>"] by (simp add: exponent_def)

lemma exponent_mono:
  assumes "0 \<le> x" and "x \<le> y"
  shows "exponent x \<le> exponent y"
  using assms halvings_mono [of x y 1023] doublings_anti [of x y 1022]
  by (auto simp: exponent_def)

lemma exponent_upper:
  assumes "0 \<le> x" and "exponent x < 1023"
  shows "x < 2 powi (exponent x + 1)"
proof (cases "1 \<le> x")
  case True
  with assms have "halvings 1023 x < 1023" by (simp add: exponent_def)
  from halvings_upper [OF this] True assms(1) show ?thesis
    by (simp add: exponent_def power_int_add)
next
  case False
  then have "x < 2" by simp
  from doublings_upper [OF this, of 1022] have "x * 2 ^ doublings 1022 x < 2" .
  then have "x < 2 / 2 ^ doublings 1022 x"
    by (simp add: pos_less_divide_eq)
  moreover have "2 powi (1 - int (doublings 1022 x)) = (2::real) / 2 ^ doublings 1022 x"
    by (simp add: power_int_diff)
  ultimately show ?thesis using False assms(1)
    by (simp add: exponent_def)
qed

lemma exponent_lower:
  assumes "0 \<le> x" and "- 1022 < exponent x"
  shows "2 powi exponent x \<le> x"
proof (cases "1 \<le> x")
  case True
  from halvings_lower [OF this, of 1023] True assms(1) show ?thesis
    by (simp add: exponent_def)
next
  case False
  with assms have "doublings 1022 x < 1022" by (simp add: exponent_def)
  from doublings_lower [OF this] have "1 \<le> x * 2 ^ doublings 1022 x" .
  then have "1 / 2 ^ doublings 1022 x \<le> x"
    by (simp add: pos_divide_le_eq)
  then show ?thesis using False assms(1)
    by (simp add: exponent_def power_int_minus field_simps)
qed

lemma binary64_zero: "binary64 0 = 0"
  by (simp add: binary64_def round_even_def Let_def)

lemma ulp_pos: "0 < ulp x"
  by (simp add: ulp_def)

lemma binary64_mono:
  assumes "0 \<le> x" and "x \<le> y"
  shows "binary64 x \<le> binary64 y"
proof (cases "exponent x = exponent y")
  case True
  then have u: "ulp x = ulp y" by (simp add: ulp_def)
  have "x / ulp y \<le> y / ulp y"
    using assms(2) ulp_pos [of y] by (simp add: divide_right_mono)
  then have "round_even (x / ulp y) \<le> round_even (y / ulp y)" by (rule round_even_mono)
  then have "(of_int (round_even (x / ulp y)) :: real) \<le> of_int (round_even (y / ulp y))"
    by simp
  then show ?thesis
    unfolding binary64_def u using ulp_pos [of y] by (simp add: mult_left_mono)
next
  case False
  with exponent_mono [OF assms] have less: "exponent x < exponent y" by simp
  with exponent_le [of y] have "exponent x < 1023" by simp
  from exponent_upper [OF assms(1) this] have ux: "x < 2 powi (exponent x + 1)" .
  have "x / ulp x \<le> 2 powi (exponent x + 1) / ulp x"
    using ux ulp_pos [of x] by (simp add: divide_right_mono)
  also have "2 powi (exponent x + 1) / ulp x = (2::real) powi 53"
    by (simp add: ulp_def power_int_diff [symmetric])
  finally have "x / ulp x \<le> 9007199254740992" by simp
  then have "round_even (x / ulp x) \<le> round_even 9007199254740992" by (rule round_even_mono)
  then have "round_even (x / ulp x) \<le> 9007199254740992" by simp
  then have "(of_int (round_even (x / ulp x)) :: real) \<le> of_int 9007199254740992"
    by (simp only: of_int_le_iff)
  then have "(of_int (round_even (x / ulp x)) :: real) \<le> 2 ^ 53" by simp
  then have "binary64 x \<le> ulp x * 2 ^ 53"
    unfolding binary64_def using ulp_pos [of x] by (simp add: mult_left_mono)
  also have "ulp x * 2 ^ 53 = 2 powi (exponent x + 1)"
    by (simp add: ulp_def power_int_diff power_int_add)
  also have "\<dots> \<le> 2 powi exponent y"
    using less by (intro power_int_increasing) simp_all
  finally have left: "binary64 x \<le> 2 powi exponent y" .
  from less exponent_ge [of x] have "- 1022 < exponent y" by simp
  from exponent_lower [OF _ this] assms have ly: "2 powi exponent y \<le> y" by simp
  have "2 powi exponent y / ulp y \<le> y / ulp y"
    using ly ulp_pos [of y] by (simp add: divide_right_mono)
  moreover have "2 powi exponent y / ulp y = (2::real) powi 52"
    by (simp add: ulp_def power_int_diff [symmetric])
  ultimately have "4503599627370496 \<le> y / ulp y" by simp
  then have "round_even 4503599627370496 \<le> round_even (y / ulp y)" by (rule round_even_mono)
  then have "4503599627370496 \<le> round_even (y / ulp y)" by simp
  then have "(of_int 4503599627370496 :: real) \<le> of_int (round_even (y / ulp y))"
    by (simp only: of_int_le_iff)
  then have "(2 ^ 52 :: real) \<le> of_int (round_even (y / ulp y))" by simp
  then have "ulp y * 2 ^ 52 \<le> binary64 y"
    unfolding binary64_def using ulp_pos [of y] by (simp add: mult_left_mono)
  moreover have "ulp y * 2 ^ 52 = 2 powi exponent y"
    by (simp add: ulp_def power_int_diff)
  ultimately show ?thesis using left by simp
qed

text \<open>
  The default \<open>minReconnectionDelay\<close> and the largest draw below \<open>1\<close>, in doubles.
\<close>

lemma rounded_to_twice_min:
  "initReconnectionDelay_double (DEFAULT_OPTIONS (Callable f)) (1 - 1 / 2 ^ 52) = 3000"
proof -
  have m: "minReconnectionDelay (DEFAULT_OPTIONS (Callable f)) = 1500"
    by (simp add: DEFAULT_OPTIONS_def)
  have p: "binary64 ((1 - 1 / 2 ^ 52) * 1500) = 1500 - 1 / 2 ^ 42"
    by (simp add: binary64_def ulp_def exponent_def halvings_numeral round_even_def Let_def
        power_int_minus)
  have q: "binary64 (1500 + (1500 - 1 / 2 ^ 42)) = 3000"
    by (simp add: binary64_def ulp_def exponent_def halvings_numeral round_even_def Let_def
        power_int_minus)
  show ?thesis by (simp only: initReconnectionDelay_double_def m p q)
qed

subsection \<open>The first backoff delay\<close>

text \<open>
  C7, amended. For every \<open>minReconnectionDelay = m > 0\<close> and every draw \<open>r\<close> in
  \<open>[0, 1)\<close>: \<open>initReconnectionDelay\<close> returns the value of \<open>m + r * m\<close>, the \<open>close\<close> handler
  that finds the sentinel \<open>0\<close> in \<open>reconnectDelay\<close> (and the retry budget not exceeded)
  stores that value, and it lies in \<open>[m, 2m]\<close>. The upper end belongs to the interval:
  the code computes in doubles, where the sum of \<open>m\<close> and a product just below \<open>m\<close> can be
  rounded to \<open>2m\<close>. The bounds hold for the expression rounded to doubles after each
  operation, whenever \<open>m\<close> and \<open>2m\<close> are doubles (\<open>2m\<close> finite, below \<open>2^1024\<close>).
\<close>

theorem first_delay_in_range:
  fixes s :: "('l, 'o) state"
  assumes "0 < minReconnectionDelay cfg" and "0 \<le> r" and "r < 1"
    and "reconnectDelay s = 0"
    and "\<not> enat (Suc (retriesCount s)) > maxRetries cfg"
    and "ready_of s i \<noteq> CLOSED"
  shows "initReconnectionDelay cfg r = minReconnectionDelay cfg + r * minReconnectionDelay cfg
       \<and> map_option reconnectDelay (returned (step cfg s (SocketClose i r)))
           = Some (minReconnectionDelay cfg + r * minReconnectionDelay cfg)
       \<and> within_closed_range cfg (minReconnectionDelay cfg + r * minReconnectionDelay cfg)
       \<and> (binary64 (minReconnectionDelay cfg) = minReconnectionDelay cfg
            \<and> binary64 (2 * minReconnectionDelay cfg) = 2 * minReconnectionDelay cfg
            \<and> 2 * minReconnectionDelay cfg < 2 ^ 1024
          \<longrightarrow> within_closed_range cfg (initReconnectionDelay_double cfg r))"
proof -
  let ?m = "minReconnectionDelay cfg"
  have lower: "0 \<le> r * ?m" and upper: "r * ?m \<le> ?m"
    using assms(1-3) by simp_all
  have stored: "map_option reconnectDelay (returned (step cfg s (SocketClose i r)))
                  = Some (?m + r * ?m)"
    using assms(4-6)
    by (simp add: step_SocketClose close_handler_eq returned_def initReconnectionDelay_def)
  have rounded: "within_closed_range cfg (initReconnectionDelay_double cfg r)"
    if fl: "binary64 ?m = ?m" "binary64 (2 * ?m) = 2 * ?m" "2 * ?m < 2 ^ 1024"
  proof -
    have "binary64 0 \<le> binary64 (r * ?m)" and "binary64 (r * ?m) \<le> binary64 ?m"
      using lower upper by (simp_all add: binary64_mono)
    then have p: "0 \<le> binary64 (r * ?m)" "binary64 (r * ?m) \<le> ?m"
      using fl(1) by (simp_all add: binary64_zero)
    have "binary64 ?m \<le> binary64 (?m + binary64 (r * ?m))"
      and "binary64 (?m + binary64 (r * ?m)) \<le> binary64 (2 * ?m)"
      using assms(1) p by (simp_all add: binary64_mono)
    then show ?thesis
      using fl(1,2) by (simp add: within_closed_range_def initReconnectionDelay_double_def)
  qed
  show ?thesis
    using lower upper stored rounded
    by (simp add: initReconnectionDelay_def within_closed_range_def)
qed

theorem first_delay_in_range_witness:
  "0 < minReconnectionDelay (DEFAULT_OPTIONS (Callable 0)) \<and> (0::real) \<le> 1 / 2 \<and> (1::real) / 2 < 1
   \<and> reconnectDelay (connect (DEFAULT_OPTIONS (Callable 0)) (initial :: (nat, nat) state)) = 0
   \<and> ready_of (connect (DEFAULT_OPTIONS (Callable 0)) (initial :: (nat, nat) state)) 0 \<noteq> CLOSED
   \<and> map_option reconnectDelay
        (returned (step (DEFAULT_OPTIONS (Callable 0))
           (connect (DEFAULT_OPTIONS (Callable 0)) (initial :: (nat, nat) state))
           (SocketClose 0 (1 / 2)))) = Some 2250
   \<and> within_closed_range (DEFAULT_OPTIONS (Callable 0)) 2250
   \<and> binary64 (minReconnectionDelay (DEFAULT_OPTIONS (Callable 0)))
       = minReconnectionDelay (DEFAULT_OPTIONS (Callable 0))
   \<and> binary64 (2 * minReconnectionDelay (DEFAULT_OPTIONS (Callable 0)))
       = 2 * minReconnectionDelay (DEFAULT_OPTIONS (Callable 0))
   \<and> 2 * minReconnectionDelay (DEFAULT_OPTIONS (Callable 0)) < 2 ^ 1024
   \<and> initReconnectionDelay_double (DEFAULT_OPTIONS (Callable 0)) (1 - 1 / 2 ^ 52)
       = 3000
   \<and> within_closed_range (DEFAULT_OPTIONS (Callable 0)) 3000"
proof -
  let ?D = "DEFAULT_OPTIONS (Callable 0)"
  note half = first_delay_in_range [of ?D "1 / 2" "connect ?D (initial :: (nat, nat) state)" 0]
  have pre: "0 < minReconnectionDelay ?D" "(0::real) \<le> 1 / 2" "(1::real) / 2 < 1"
    "reconnectDelay (connect ?D (initial :: (nat, nat) state)) = 0"
    "\<not> enat (Suc (retriesCount (connect ?D (initial :: (nat, nat) state)))) > maxRetries ?D"
    "ready_of (connect ?D (initial :: (nat, nat) state)) 0 \<noteq> CLOSED"
    by (simp_all add: DEFAULT_OPTIONS_def connect_eq initial_def ready_of_def)
  have fl: "binary64 (minReconnectionDelay ?D) = minReconnectionDelay ?D"
    "binary64 (2 * minReconnectionDelay ?D) = 2 * minReconnectionDelay ?D"
    "2 * minReconnectionDelay ?D < 2 ^ 1024"
    by (simp_all add: DEFAULT_OPTIONS_def binary64_def ulp_def exponent_def halvings_numeral
        round_even_def Let_def power_int_minus)
  have v: "initReconnectionDelay_double ?D (1 - 1 / 2 ^ 52) = 3000"
    by (rule rounded_to_twice_min)
  have "(0::real) \<le> 1 - 1 / 2 ^ 52" and "(1::real) - 1 / 2 ^ 52 < 1" by simp_all
  with first_delay_in_range [of ?D "1 - 1 / 2 ^ 52"
      "connect ?D (initial :: (nat, nat) state)" 0] pre(1,4,5,6) fl
  have "within_closed_range ?D (initReconnectionDelay_double ?D (1 - 1 / 2 ^ 52))"
    by blast
  with half [OF pre] pre fl v show ?thesis
    by (simp add: DEFAULT_OPTIONS_def)
qed

text \<open>
  With \<open>minReconnectionDelay = 0\<close> the first delay is \<open>0\<close>, and the interval
  \<open>[0, 0)\<close> holds no number (\<open>0 + 0 * 0\<close> is exact in doubles). And with the default
  \<open>1500\<close> and the draw \<open>1 - 2^(-52)\<close>, the delay computed in doubles is \<open>3000\<close>: the product
  is rounded to \<open>1500 - 2^(-42)\<close>, and the sum, halfway between two doubles, to the even one.
\<close>

theorem first_delay_zero_min_counterexample:
  "map_option (within_initial_range ((DEFAULT_OPTIONS (Callable 0))\<lparr>minReconnectionDelay := 0\<rparr>))
     (map_option reconnectDelay
       (returned (step ((DEFAULT_OPTIONS (Callable 0))\<lparr>minReconnectionDelay := 0\<rparr>)
          (connect ((DEFAULT_OPTIONS (Callable 0))\<lparr>minReconnectionDelay := 0\<rparr>)
             (initial :: (nat, nat) state))
          (SocketClose 0 0)))) = Some False
   \<and> binary64 (1 - 1 / 2 ^ 52) = 1 - 1 / 2 ^ 52
   \<and> initReconnectionDelay_double (DEFAULT_OPTIONS (Callable 0)) (1 - 1 / 2 ^ 52)
       = 3000
   \<and> within_initial_range (DEFAULT_OPTIONS (Callable 0)) 3000 = False"
proof -
  have "binary64 (1 - 1 / 2 ^ 52) = 1 - 1 / 2 ^ 52"
    by (simp add: binary64_def ulp_def exponent_def doublings_numeral round_even_def Let_def
        power_int_minus)
  with rounded_to_twice_min [of 0] show ?thesis
    by (simp add: returned_def DEFAULT_OPTIONS_def connect_eq initial_def step_def ready_of_def
        close_handler_eq set_readyState_def initReconnectionDelay_def within_initial_range_def)
qed

subsection \<open>Fields left alone by the primitives\<close>

lemma on_ws_Some: "ws s = Some i \<Longrightarrow> on_ws cs s = Inr (socket_calls i cs s)"
  by (simp add: on_ws_def)

lemma socket_calls_fields [simp]:
  "ws (socket_calls i cs s) = ws s"
  "connectingTimeout (socket_calls i cs s) = connectingTimeout s"
  "reconnectDelay (socket_calls i cs s) = reconnectDelay s"
  "retriesCount (socket_calls i cs s) = retriesCount s"
  "shouldRetry (socket_calls i cs s) = shouldRetry s"
  "listeners (socket_calls i cs s) = listeners s"
  "timers (socket_calls i cs s) = timers s"
  "next_handle (socket_calls i cs s) = next_handle s"
  "dispatched (socket_calls i cs s) = dispatched s"
  "length (sockets (socket_calls i cs s)) = length (sockets s)"
  by (simp_all add: socket_calls_def)

lemma clearTimeout_fields [simp]:
  "ws (clearTimeout h s) = ws s"
  "connectingTimeout (clearTimeout h s) = connectingTimeout s"
  "reconnectDelay (clearTimeout h s) = reconnectDelay s"
  "retriesCount (clearTimeout h s) = retriesCount s"
  "shouldRetry (clearTimeout h s) = shouldRetry s"
  "listeners (clearTimeout h s) = listeners s"
  "sockets (clearTimeout h s) = sockets s"
  "next_handle (clearTimeout h s) = next_handle s"
  "dispatched (clearTimeout h s) = dispatched s"
  by (simp_all add: clearTimeout_def split: option.splits)

lemma setTimeout_fields [simp]:
  "ws (setTimeout a d s) = ws s"
  "connectingTimeout (setTimeout a d s) = connectingTimeout s"
  "reconnectDelay (setTimeout a d s) = reconnectDelay s"
  "retriesCount (setTimeout a d s) = retriesCount s"
  "shouldRetry (setTimeout a d s) = shouldRetry s"
  "listeners (setTimeout a d s) = listeners s"
  "sockets (setTimeout a d s) = sockets s"
  "dispatched (setTimeout a d s) = dispatched s"
  "next_handle (setTimeout a d s) = Suc (next_handle s)"
  "timers (setTimeout a d s) = timers s @ [\<lparr>handle = next_handle s, action = a, delay = d\<rparr>]"
  by (simp_all add: setTimeout_def)

subsection \<open>Every event has a next state once \<open>ws\<close> is assigned\<close>

lemma ws_connect: "ws s \<noteq> None \<Longrightarrow> ws (connect cfg s) \<noteq> None"
  by (cases "new_socket cfg") (simp_all add: connect_eq connect_thrown)

lemma settle_Some:
  "ws s = Some w \<Longrightarrow> settle s r = Inr (case r of Inl e \<Rightarrow> s | Inr s' \<Rightarrow> s')"
  by (simp add: settle_def split: sum.splits)

lemma step_defined:
  assumes "ws s \<noteq> None"
  shows "\<exists>s'. step cfg s e = Inr s' \<and> ws s' \<noteq> None"
proof -
  from assms obtain w where w: "ws s = Some w" by auto
  show ?thesis
  proof (cases e)
    case (SocketOpen i r)
    then show ?thesis using w by (simp add: step_def open_handler_eq)
  next
    case (SocketClose i r)
    then show ?thesis using w by (simp add: step_def close_handler_eq)
  next
    case (TimerFires h)
    show ?thesis
    proof (cases "find (\<lambda>t. handle t = h) (timers s)")
      case None
      then show ?thesis using w TimerFires by (simp add: step_def)
    next
      case (Some t)
      then show ?thesis using w TimerFires ws_connect [of "clearTimeout (Some h) s" cfg]
        by (cases "action t")
           (simp_all add: step_def fire_def timeout_callback_def error_callback_def on_ws_def
              emitError_def Let_def)
    qed
  next
    case CallClose
    then show ?thesis using w by (simp add: step_def settle_Some close_def on_ws_def)
  next
    case (CallAddEventListener t l opt)
    then show ?thesis using w
      by (simp add: step_def settle_Some addEventListener_def on_ws_def split: found.splits)
  next
    case (CallRemoveEventListener t l opt)
    then show ?thesis using w
      by (simp add: step_def settle_Some removeEventListener_def on_ws_def split: found.splits)
  qed
qed

lemma run_defined:
  "ws s \<noteq> None \<Longrightarrow> \<exists>s'. run cfg s evs = Inr s' \<and> ws s' \<noteq> None"
proof (induction evs arbitrary: s)
  case Nil
  then show ?case by simp
next
  case (Cons e evs)
  from step_defined [OF Cons.prems, of cfg e]
  obtain s1 where s1: "step cfg s e = Inr s1" "ws s1 \<noteq> None" by blast
  from Cons.IH [OF s1(2)] show ?case using s1(1) by simp
qed

subsection \<open>The shared table of defaults\<close>

text \<open>
  C5 fails on the code: \<open>config\<close> is the table \<open>DEFAULT_OPTIONS\<close> itself, so the options of
  one construction stay in the table. After \<open>new ReconnectingWebsocket(url, undefined,
  {maxRetries: 2})\<close>, a construction with an empty options object runs with
  \<open>maxRetries = 2\<close>, not with \<open>Infinity\<close>.
\<close>

theorem defaults_changed_by_construction:
  "fst (ReconnectingWebsocket True (DEFAULT_OPTIONS (Callable 0))
          (Options (no_options\<lparr>opt_maxRetries := Some 2\<rparr>))
          :: config \<times> (exn + (nat, nat) state))
     = (DEFAULT_OPTIONS (Callable 0))\<lparr>maxRetries := 2\<rparr>
   \<and> snd (ReconnectingWebsocket True
            (fst (ReconnectingWebsocket True (DEFAULT_OPTIONS (Callable 0))
               (Options (no_options\<lparr>opt_maxRetries := Some 2\<rparr>))
               :: config \<times> (exn + (nat, nat) state)))
            (Options no_options) :: config \<times> (exn + (nat, nat) state))
     = Inr (connect ((DEFAULT_OPTIONS (Callable 0))\<lparr>maxRetries := 2\<rparr>) initial)
   \<and> maxRetries (DEFAULT_OPTIONS (Callable 0)) = \<infinity>"
  by (simp add: ReconnectingWebsocket_def DEFAULT_OPTIONS_def assign_options_def no_options_def
      Let_def)

subsection \<open>Runs\<close>

lemma run_append:
  "run cfg s (xs @ ys) = (case run cfg s xs of Inl x \<Rightarrow> Inl x | Inr s' \<Rightarrow> run cfg s' ys)"
  by (induction xs arbitrary: s) (auto split: sum.splits)

lemma ready_of_socket_calls [simp]: "ready_of (socket_calls i cs s) j = ready_of s j"
  by (simp add: ready_of_def socket_calls_def nth_list_update)

lemma ready_of_setTimeout [simp]: "ready_of (setTimeout a d s) j = ready_of s j"
  by (simp add: ready_of_def)

lemma ready_of_clearTimeout [simp]: "ready_of (clearTimeout h s) j = ready_of s j"
  by (simp add: ready_of_def)

lemma ready_of_set_readyState:
  "ready_of (set_readyState i k s) j = (if j = i \<and> i < length (sockets s) then k else ready_of s j)"
  by (simp add: ready_of_def set_readyState_def nth_list_update)

lemma ready_of_connect:
  "ready_of (connect cfg s) j =
     (if new_socket cfg = None \<and> j = length (sockets s) then CONNECTING else ready_of s j)"
  by (cases "new_socket cfg") (simp_all add: ready_of_def connect_eq connect_thrown nth_append)

lemma quiet_step:
  assumes "ws s \<noteq> None" and "\<not> is_socket_event e" and "ready_of s i \<noteq> CLOSED"
  shows "\<exists>s'. step cfg s e = Inr s' \<and> ws s' \<noteq> None \<and> reconnectDelay s' = reconnectDelay s
           \<and> retriesCount s' = retriesCount s \<and> ready_of s' i = ready_of s i"
proof -
  from assms(1) obtain w where w: "ws s = Some w" by auto
  have i: "i \<noteq> length (sockets s)" using assms(3) by (auto simp: ready_of_def)
  show ?thesis
  proof (cases e)
    case (TimerFires h)
    show ?thesis
    proof (cases "find (\<lambda>t. handle t = h) (timers s)")
      case None
      then show ?thesis using w TimerFires by (simp add: step_def)
    next
      case (Some t)
      then show ?thesis using w TimerFires i ws_connect [of "clearTimeout (Some h) s" cfg]
        by (cases "action t")
           (simp_all add: step_def fire_def timeout_callback_def error_callback_def on_ws_def
              ready_of_connect emitError_def Let_def, simp_all add: ready_of_def)
    qed
  next
    case CallClose
    then show ?thesis using w
      by (simp add: step_def settle_Some close_def on_ws_def, simp add: ready_of_def)
  next
    case (CallAddEventListener t l opt)
    then show ?thesis using w
      by (simp add: step_def settle_Some addEventListener_def on_ws_def split: found.splits,
          simp add: ready_of_def)
  next
    case (CallRemoveEventListener t l opt)
    then show ?thesis using w
      by (simp add: step_def settle_Some removeEventListener_def on_ws_def split: found.splits,
          simp add: ready_of_def)
  qed (use assms(2) in simp_all)
qed

lemma quiet_run:
  assumes "ws s \<noteq> None" and "list_all (\<lambda>e. \<not> is_socket_event e) evs" and "ready_of s i \<noteq> CLOSED"
  shows "\<exists>s'. run cfg s evs = Inr s' \<and> ws s' \<noteq> None \<and> reconnectDelay s' = reconnectDelay s
           \<and> retriesCount s' = retriesCount s \<and> ready_of s' i = ready_of s i"
  using assms
proof (induction evs arbitrary: s)
  case Nil
  then show ?case by simp
next
  case (Cons e evs)
  from quiet_step [of s e i cfg] Cons.prems
  obtain s1 where s1: "step cfg s e = Inr s1" "ws s1 \<noteq> None" "reconnectDelay s1 = reconnectDelay s"
    "retriesCount s1 = retriesCount s" "ready_of s1 i = ready_of s i"
    by auto
  from Cons.IH [of s1] s1 Cons.prems show ?case by auto
qed

text \<open>
  C1, amended. The \<open>open\<close> handler stores a fresh initial delay, the value of \<open>m + r * m\<close>,
  in \<open>[m, 2m]\<close> for \<open>m > 0\<close> (the upper end included, as for the first delay above),
  whatever the delay was before. The first \<open>close\<close> of that socket afterwards (no socket
  event between, retry budget of at least one) finds a delay that is not the sentinel and
  so grows it: the delay it stores, and uses for the retry it schedules, is
  \<open>updateReconnectionDelay\<close> of the fresh initial delay.
\<close>

theorem delay_after_open:
  fixes s :: "('l, 'o) state"
  assumes "ws s \<noteq> None" and "ready_of s i = CONNECTING"
    and "list_all (\<lambda>e. \<not> is_socket_event e) mid"
    and "1 \<le> maxRetries cfg"
    and "0 < minReconnectionDelay cfg" and "0 \<le> r" and "r < 1"
  shows "\<exists>s1 s2. run cfg s [SocketOpen i r] = Inr s1
           \<and> reconnectDelay s1 = initReconnectionDelay cfg r
           \<and> within_closed_range cfg (reconnectDelay s1)
           \<and> run cfg s (SocketOpen i r # mid @ [SocketClose i r']) = Inr s2
           \<and> reconnectDelay s2 = updateReconnectionDelay cfg (initReconnectionDelay cfg r)
           \<and> (shouldRetry s2 \<longrightarrow>
                action (last (timers s2)) = Connect \<and> delay (last (timers s2)) = reconnectDelay s2)"
proof -
  let ?m = "minReconnectionDelay cfg"
  let ?s1 = "open_handler cfg r (set_readyState i OPEN s)"
  have i: "i < length (sockets s)" using assms(2) by (auto simp: ready_of_def split: if_splits)
  have open1: "step cfg s (SocketOpen i r) = Inr ?s1"
    using assms(2) by (rule step_SocketOpen)
  have d1: "reconnectDelay ?s1 = initReconnectionDelay cfg r" and c1: "retriesCount ?s1 = 0"
    and w1: "ws ?s1 \<noteq> None"
    using assms(1) by (simp_all add: open_handler_eq)
  have pos: "0 < initReconnectionDelay cfg r"
    using assms(5,6) by (simp add: initReconnectionDelay_def add_pos_nonneg)
  have "0 \<le> r * ?m" and "r * ?m \<le> ?m" using assms(5-7) by simp_all
  then have range: "within_closed_range cfg (reconnectDelay ?s1)"
    unfolding d1 by (simp add: within_closed_range_def initReconnectionDelay_def)
  have r1: "ready_of ?s1 i = OPEN"
    using i by (simp add: open_handler_eq ready_of_def set_readyState_def)
  then have "ready_of ?s1 i \<noteq> CLOSED" by simp
  from quiet_run [OF w1 assms(3) this, of cfg]
  obtain sm where sm: "run cfg ?s1 mid = Inr sm" "reconnectDelay sm = reconnectDelay ?s1"
      "retriesCount sm = retriesCount ?s1" "ready_of sm i = ready_of ?s1 i"
    by blast
  let ?s2 = "close_handler cfg r' (set_readyState i CLOSED sm)"
  have close2: "step cfg sm (SocketClose i r') = Inr ?s2"
    using sm(4) r1 by (simp add: step_SocketClose)
  have budget: "\<not> enat (Suc 0) > maxRetries cfg"
    using assms(4) by (simp add: one_enat_def not_less)
  have d2: "reconnectDelay ?s2 = updateReconnectionDelay cfg (initReconnectionDelay cfg r)"
    using sm(2,3) d1 c1 pos budget by (simp add: close_handler_eq)
  have t2: "shouldRetry ?s2 \<longrightarrow>
      action (last (timers ?s2)) = Connect \<and> delay (last (timers ?s2)) = reconnectDelay ?s2"
    using sm(2,3) d1 c1 pos budget by (simp add: close_handler_eq)
  have "run cfg s (SocketOpen i r # mid @ [SocketClose i r']) = Inr ?s2"
    using open1 sm(1) close2 by (simp add: run_append)
  with open1 d1 range d2 t2 show ?thesis by simp
qed

theorem delay_after_open_witness:
  "ws (connect (DEFAULT_OPTIONS (Callable 0)) (initial :: (nat, nat) state)) \<noteq> None
   \<and> ready_of (connect (DEFAULT_OPTIONS (Callable 0)) (initial :: (nat, nat) state)) 0 = CONNECTING
   \<and> 1 \<le> maxRetries (DEFAULT_OPTIONS (Callable 0))
   \<and> 0 < minReconnectionDelay (DEFAULT_OPTIONS (Callable 0))
   \<and> map_option reconnectDelay
        (returned (run (DEFAULT_OPTIONS (Callable 0))
           (connect (DEFAULT_OPTIONS (Callable 0)) (initial :: (nat, nat) state))
           [SocketOpen 0 (1 / 2), CallAddEventListener ''message'' 7 0, SocketClose 0 0]))
       = Some 2925"
proof -
  let ?D = "DEFAULT_OPTIONS (Callable 0)"
  let ?s = "connect ?D (initial :: (nat, nat) state)"
  have h1: "ws ?s \<noteq> None" and h2: "ready_of ?s 0 = CONNECTING"
    by (simp_all add: connect_eq initial_def ready_of_def)
  have h3: "list_all (\<lambda>e. \<not> is_socket_event e) [CallAddEventListener ''message'' (7::nat) (0::nat)]"
    by simp
  have h4: "1 \<le> maxRetries ?D" and h5: "0 < minReconnectionDelay ?D"
    by (simp_all add: DEFAULT_OPTIONS_def)
  from delay_after_open [OF h1 h2 h3 h4 h5, of "1 / 2" 0]
  obtain s2 where "run ?D ?s ([SocketOpen 0 (1 / 2)]
        @ [CallAddEventListener ''message'' 7 0] @ [SocketClose 0 0]) = Inr s2"
    and "reconnectDelay s2 = updateReconnectionDelay ?D (initReconnectionDelay ?D (1 / 2))"
    by auto
  then have "map_option reconnectDelay
        (returned (run ?D ?s
           [SocketOpen 0 (1 / 2), CallAddEventListener ''message'' 7 0, SocketClose 0 0]))
       = Some 2925"
    by (simp add: returned_def updateReconnectionDelay_def initReconnectionDelay_def
        DEFAULT_OPTIONS_def)
  with h1 h2 h4 h5 show ?thesis by simp
qed

text \<open>
  With the defaults (\<open>m = 1500\<close>, grow factor \<open>1.3\<close>) and the draw \<open>0.9\<close> at \<open>open\<close>, the
  delay of the first \<open>close\<close> after the \<open>open\<close> is \<open>2850 * 1.3 = 3705\<close>, outside
  \<open>[1500, 3000)\<close>.
\<close>

theorem delay_after_open_counterexample:
  "map_option reconnectDelay
     (returned (run (DEFAULT_OPTIONS (Callable 0))
        (connect (DEFAULT_OPTIONS (Callable 0)) (initial :: (nat, nat) state))
        [SocketOpen 0 (9 / 10), SocketClose 0 0])) = Some 3705
   \<and> map_option (\<lambda>s. map delay (timers s))
       (returned (run (DEFAULT_OPTIONS (Callable 0))
          (connect (DEFAULT_OPTIONS (Callable 0)) (initial :: (nat, nat) state))
          [SocketOpen 0 (9 / 10), SocketClose 0 0])) = Some [3705]
   \<and> within_initial_range (DEFAULT_OPTIONS (Callable 0)) 3705 = False"
  by (simp add: returned_def DEFAULT_OPTIONS_def connect_eq initial_def step_def ready_of_def
      close_handler_eq open_handler_eq set_readyState_def initReconnectionDelay_def
      updateReconnectionDelay_def within_initial_range_def)

lemma pending_set_readyState [simp]: "pending a (set_readyState i k s) = pending a s"
  by (simp add: pending_def)

lemma pending_socket_calls [simp]: "pending a (socket_calls i cs s) = pending a s"
  by (simp add: pending_def)

lemma emitted_set_readyState [simp]: "emitted c (set_readyState i k s) = emitted c s"
  by (simp add: emitted_def)

lemma emitted_socket_calls [simp]: "emitted c (socket_calls i cs s) = emitted c s"
  by (simp add: emitted_def)

subsection \<open>After the caller's \<open>close()\<close>\<close>

text \<open>
  C9, amended. After \<open>close()\<close> the latch \<open>shouldRetry\<close> is false, yet the \<open>close\<close> event of
  the socket still runs the handler: \<open>retriesCount\<close> goes up by one. When that exceeds
  \<open>maxRetries\<close>, one more \<open>EHOSTDOWN\<close> error is emitted and \<open>reconnectDelay\<close> is left as it
  was, since the handler returns before it reaches the delay; otherwise \<open>reconnectDelay\<close> is
  initialised or grown as usual and no error is emitted. Either way no retry is scheduled
  and no socket is created by the event.
\<close>

theorem close_event_after_close_call:
  fixes s :: "('l, 'o) state"
  assumes "ws s = Some w" and "ready_of s i \<noteq> CLOSED"
  shows "\<exists>s1 s2. close s = Inr s1 \<and> \<not> shouldRetry s1
     \<and> step cfg s1 (SocketClose i r) = Inr s2
     \<and> run cfg s [CallClose, SocketClose i r] = Inr s2
     \<and> retriesCount s2 = Suc (retriesCount s)
     \<and> \<not> shouldRetry s2
     \<and> length (sockets s2) = length (sockets s)
     \<and> pending Connect s2 = pending Connect s
     \<and> (if enat (Suc (retriesCount s)) > maxRetries cfg
        then emitted EHOSTDOWN s2 = Suc (emitted EHOSTDOWN s)
           \<and> reconnectDelay s2 = reconnectDelay s
        else emitted EHOSTDOWN s2 = emitted EHOSTDOWN s \<and> timers s2 = timers s
           \<and> reconnectDelay s2 =
               (if reconnectDelay s = 0 then initReconnectionDelay cfg r
                else updateReconnectionDelay cfg (reconnectDelay s)))"
proof -
  let ?s1 = "socket_calls w [Close] (s\<lparr>shouldRetry := False\<rparr>)"
  let ?s2 = "close_handler cfg r (set_readyState i CLOSED ?s1)"
  have c: "close s = Inr ?s1"
    using assms(1) by (simp add: close_def on_ws_def)
  have "ready_of (s\<lparr>shouldRetry := False\<rparr>) i = ready_of s i"
    by (simp add: ready_of_def)
  then have live: "ready_of ?s1 i \<noteq> CLOSED"
    using assms(2) by simp
  then have st: "step cfg ?s1 (SocketClose i r) = Inr ?s2"
    by (rule step_SocketClose)
  have rn: "run cfg s [CallClose, SocketClose i r] = Inr ?s2"
    using c st by (simp add: step_def settle_def)
  have props: "retriesCount ?s2 = Suc (retriesCount s)" "\<not> shouldRetry ?s2"
    "length (sockets ?s2) = length (sockets s)" "pending Connect ?s2 = pending Connect s"
    by (simp_all add: close_handler_eq pending_def)
  have branch: "if enat (Suc (retriesCount s)) > maxRetries cfg
        then emitted EHOSTDOWN ?s2 = Suc (emitted EHOSTDOWN s)
           \<and> reconnectDelay ?s2 = reconnectDelay s
        else emitted EHOSTDOWN ?s2 = emitted EHOSTDOWN s \<and> timers ?s2 = timers s
           \<and> reconnectDelay ?s2 =
               (if reconnectDelay s = 0 then initReconnectionDelay cfg r
                else updateReconnectionDelay cfg (reconnectDelay s))"
    by (simp add: close_handler_eq emitted_def pending_def)
  from c st rn props branch show ?thesis by simp
qed

theorem close_event_after_close_call_witness:
  "ws (connect ((DEFAULT_OPTIONS (Callable 0))\<lparr>maxRetries := 0\<rparr>) (initial :: (nat, nat) state))
     = Some 0
   \<and> ready_of (connect ((DEFAULT_OPTIONS (Callable 0))\<lparr>maxRetries := 0\<rparr>)
         (initial :: (nat, nat) state)) 0 \<noteq> CLOSED
   \<and> map_option (\<lambda>s. (retriesCount s, shouldRetry s, length (sockets s), emitted EHOSTDOWN s,
          pending Connect s, reconnectDelay s))
       (returned (run ((DEFAULT_OPTIONS (Callable 0))\<lparr>maxRetries := 0\<rparr>)
          (connect ((DEFAULT_OPTIONS (Callable 0))\<lparr>maxRetries := 0\<rparr>)
             (initial :: (nat, nat) state))
          [CallClose, SocketClose 0 (1 / 2)]))
       = Some (1, False, 1, 1, [], 0)
   \<and> ws (connect (DEFAULT_OPTIONS (Callable 0)) (initial :: (nat, nat) state)) = Some 0
   \<and> ready_of (connect (DEFAULT_OPTIONS (Callable 0)) (initial :: (nat, nat) state)) 0 \<noteq> CLOSED
   \<and> map_option (\<lambda>s. (retriesCount s, shouldRetry s, length (sockets s), emitted EHOSTDOWN s,
          pending Connect s, reconnectDelay s))
       (returned (run (DEFAULT_OPTIONS (Callable 0))
          (connect (DEFAULT_OPTIONS (Callable 0)) (initial :: (nat, nat) state))
          [CallClose, SocketClose 0 (1 / 2)]))
       = Some (1, False, 1, 0, [], 2250)"
proof -
  let ?C = "(DEFAULT_OPTIONS (Callable 0))\<lparr>maxRetries := 0\<rparr>"
  let ?D = "DEFAULT_OPTIONS (Callable 0)"
  let ?s = "connect ?C (initial :: (nat, nat) state)"
  let ?t = "connect ?D (initial :: (nat, nat) state)"
  have h1: "ws ?s = Some 0" and h2: "ready_of ?s 0 \<noteq> CLOSED"
    and k1: "ws ?t = Some 0" and k2: "ready_of ?t 0 \<noteq> CLOSED"
    by (simp_all add: connect_eq initial_def ready_of_def)
  have before: "retriesCount ?s = 0" "length (sockets ?s) = 1" "pending Connect ?s = []"
    "emitted EHOSTDOWN ?s = 0" "enat (Suc 0) > maxRetries ?C" "reconnectDelay ?s = 0"
    by (simp_all add: connect_eq initial_def pending_def emitted_def DEFAULT_OPTIONS_def
        zero_enat_def)
  have before': "retriesCount ?t = 0" "length (sockets ?t) = 1" "pending Connect ?t = []"
    "emitted EHOSTDOWN ?t = 0" "\<not> enat (Suc 0) > maxRetries ?D" "reconnectDelay ?t = 0"
    "initReconnectionDelay ?D (1 / 2) = 2250"
    by (simp_all add: connect_eq initial_def pending_def emitted_def DEFAULT_OPTIONS_def
        initReconnectionDelay_def)
  from close_event_after_close_call [OF h1 h2, of ?C "1 / 2"]
  obtain s2 where "run ?C ?s [CallClose, SocketClose 0 (1 / 2)] = Inr s2"
    and "retriesCount s2 = Suc (retriesCount ?s)" and "\<not> shouldRetry s2"
    and "length (sockets s2) = length (sockets ?s)"
    and "pending Connect s2 = pending Connect ?s"
    and "if enat (Suc (retriesCount ?s)) > maxRetries ?C
         then emitted EHOSTDOWN s2 = Suc (emitted EHOSTDOWN ?s)
            \<and> reconnectDelay s2 = reconnectDelay ?s
         else emitted EHOSTDOWN s2 = emitted EHOSTDOWN ?s \<and> timers s2 = timers ?s
            \<and> reconnectDelay s2 =
                (if reconnectDelay ?s = 0 then initReconnectionDelay ?C (1 / 2)
                 else updateReconnectionDelay ?C (reconnectDelay ?s))"
    by blast
  with before have exceeded: "map_option (\<lambda>s. (retriesCount s, shouldRetry s, length (sockets s),
          emitted EHOSTDOWN s, pending Connect s, reconnectDelay s))
       (returned (run ?C ?s [CallClose, SocketClose 0 (1 / 2)])) = Some (1, False, 1, 1, [], 0)"
    by (simp add: returned_def)
  from close_event_after_close_call [OF k1 k2, of ?D "1 / 2"]
  obtain t2 where "run ?D ?t [CallClose, SocketClose 0 (1 / 2)] = Inr t2"
    and "retriesCount t2 = Suc (retriesCount ?t)" and "\<not> shouldRetry t2"
    and "length (sockets t2) = length (sockets ?t)"
    and "pending Connect t2 = pending Connect ?t"
    and "if enat (Suc (retriesCount ?t)) > maxRetries ?D
         then emitted EHOSTDOWN t2 = Suc (emitted EHOSTDOWN ?t)
            \<and> reconnectDelay t2 = reconnectDelay ?t
         else emitted EHOSTDOWN t2 = emitted EHOSTDOWN ?t \<and> timers t2 = timers ?t
            \<and> reconnectDelay t2 =
                (if reconnectDelay ?t = 0 then initReconnectionDelay ?D (1 / 2)
                 else updateReconnectionDelay ?D (reconnectDelay ?t))"
    by blast
  with before' have within: "map_option (\<lambda>s. (retriesCount s, shouldRetry s, length (sockets s),
          emitted EHOSTDOWN s, pending Connect s, reconnectDelay s))
       (returned (run ?D ?t [CallClose, SocketClose 0 (1 / 2)])) = Some (1, False, 1, 0, [], 2250)"
    by (simp add: returned_def)
  from h1 h2 k1 k2 exceeded within show ?thesis by simp
qed

text \<open>
  The claim has the \<open>close\<close> event after \<open>close()\<close> update \<open>reconnectDelay\<close> also when it
  emits \<open>EHOSTDOWN\<close>. With \<open>maxRetries = 1\<close>: the first socket fails (delay \<open>1500\<close>, a retry
  is scheduled), the retry connects, the caller calls \<open>close()\<close>, and the \<open>close\<close> event of
  the second socket takes \<open>retriesCount\<close> to \<open>2\<close>. \<open>EHOSTDOWN\<close> is emitted and \<open>reconnectDelay\<close>
  is still \<open>1500\<close>; an update would have made it \<open>1950\<close>.
\<close>

theorem close_event_after_close_call_counterexample:
  "map_option (\<lambda>s. (retriesCount s, reconnectDelay s, emitted EHOSTDOWN s))
     (returned (run ((DEFAULT_OPTIONS (Callable 0))\<lparr>maxRetries := 1\<rparr>)
        (connect ((DEFAULT_OPTIONS (Callable 0))\<lparr>maxRetries := 1\<rparr>)
           (initial :: (nat, nat) state))
        [SocketClose 0 0, TimerFires 1, CallClose]))
     = Some (1, 1500, 0)
   \<and> map_option (\<lambda>s. (retriesCount s, reconnectDelay s, emitted EHOSTDOWN s))
     (returned (run ((DEFAULT_OPTIONS (Callable 0))\<lparr>maxRetries := 1\<rparr>)
        (connect ((DEFAULT_OPTIONS (Callable 0))\<lparr>maxRetries := 1\<rparr>)
           (initial :: (nat, nat) state))
        [SocketClose 0 0, TimerFires 1, CallClose, SocketClose 1 0]))
     = Some (2, 1500, 1)
   \<and> updateReconnectionDelay ((DEFAULT_OPTIONS (Callable 0))\<lparr>maxRetries := 1\<rparr>) 1500 = 1950"
  by (simp add: returned_def DEFAULT_OPTIONS_def connect_eq initial_def step_def ready_of_def
      close_handler_eq set_readyState_def initReconnectionDelay_def close_def on_ws_def
      socket_calls_def fire_def clearTimeout_def registry_calls_def settle_def emitted_def
      pending_def updateReconnectionDelay_def one_enat_def)

text \<open>
  C4 fails on the code: \<open>close()\<close> sets the latch, and the latch only guards the
  scheduling of a retry in the \<open>close\<close> handler. A retry scheduled before the call stays
  pending, and \<open>connect\<close> does not look at the latch. Here the first socket fails, the
  caller calls \<open>close()\<close> while the retry is pending, the retry timer fires, and a second
  socket is created and is connecting.
\<close>

theorem connect_runs_after_close:
  "map_option (\<lambda>s. (shouldRetry s, map action (timers s), map readyState (sockets s)))
     (returned (run (DEFAULT_OPTIONS (Callable 0))
        (connect (DEFAULT_OPTIONS (Callable 0)) (initial :: (nat, nat) state))
        [SocketClose 0 0, CallClose]))
     = Some (False, [ConnectingTimeout, Connect], [CLOSED])
   \<and> map_option (\<lambda>s. (shouldRetry s, ws s, map readyState (sockets s)))
     (returned (run (DEFAULT_OPTIONS (Callable 0))
        (connect (DEFAULT_OPTIONS (Callable 0)) (initial :: (nat, nat) state))
        [SocketClose 0 0, CallClose, TimerFires 1]))
     = Some (False, Some 1, [CLOSED, CONNECTING])"
  by (simp add: returned_def DEFAULT_OPTIONS_def connect_eq initial_def step_def ready_of_def
      close_handler_eq set_readyState_def initReconnectionDelay_def close_def on_ws_def
      socket_calls_def fire_def clearTimeout_def registry_calls_def settle_def)

subsection \<open>The connection-timeout timer\<close>



subsection \<open>The listener registry\<close>

lemma map_of_insert_key:
  "k \<notin> set (map fst kvs) \<Longrightarrow> map_of (insert_key k v kvs) = (map_of kvs)(k \<mapsto> v)"
  by (induction k v kvs rule: insert_key.induct) (auto simp: fun_eq_iff)

lemma map_of_replace_key:
  "k \<in> set (map fst kvs) \<Longrightarrow> map_of (replace_key k v kvs) = (map_of kvs)(k \<mapsto> v)"
  by (induction k v kvs rule: replace_key.induct) (auto simp: fun_eq_iff rev_image_eqI)

lemma map_of_assign: "map_of (assign k v kvs) = (map_of kvs)(k \<mapsto> v)"
  by (simp add: assign_def map_of_insert_key map_of_replace_key)

lemma set_insert_key: "set (insert_key k v kvs) = insert (k, v) (set kvs)"
  by (induction k v kvs rule: insert_key.induct) auto

lemma set_replace_key: "set (replace_key k v kvs) \<subseteq> insert (k, v) (set kvs)"
  by (induction k v kvs rule: replace_key.induct) auto

lemma keys_replace_key: "map fst (replace_key k v kvs) = map fst kvs"
  by (induction k v kvs rule: replace_key.induct) auto

lemma distinct_insert_key:
  "k \<notin> set (map fst kvs) \<Longrightarrow> distinct (map fst kvs) \<Longrightarrow> distinct (map fst (insert_key k v kvs))"
  by (induction k v kvs rule: insert_key.induct) (auto simp: set_insert_key)

lemma distinct_assign: "distinct (map fst kvs) \<Longrightarrow> distinct (map fst (assign k v kvs))"
  by (simp add: assign_def keys_replace_key distinct_insert_key)

lemma set_assign_subset: "set (assign k v kvs) \<subseteq> insert (k, v) (set kvs)"
  using set_replace_key [of k v kvs] by (simp add: assign_def set_insert_key)

lemma registry_ok_store:
  assumes "registry_ok reg" and "distinct (map fst v)"
  shows "registry_ok (store k v reg)"
proof (cases "k = ''__proto__''")
  case True
  then show ?thesis using assms(1) by (simp add: store_def registry_ok_def)
next
  case False
  have "distinct (map fst (assign k v (own reg)))"
    using assms(1) by (simp add: distinct_assign registry_ok_def)
  moreover have "list_all (\<lambda>kv. distinct (map fst (snd kv))) (assign k v (own reg))"
    using assms set_assign_subset [of k v "own reg"]
    by (auto simp: registry_ok_def list_all_iff)
  ultimately show ?thesis using False by (simp add: registry_ok_def store_def)
qed

lemma registry_ok_entries: "registry_ok reg \<Longrightarrow> distinct (map fst (entries reg t))"
  by (auto simp: registry_ok_def entries_def list_all_iff split: option.splits dest!: map_of_SomeD)

lemma entries_store:
  "entries (store k v reg) t = (if t = k \<and> k \<noteq> ''__proto__'' then v else entries reg t)"
  by (simp add: entries_def store_def map_of_assign)

lemma list_ex_fst: "list_ex (\<lambda>(l, _). l = x) ls = (x \<in> set (map fst ls))"
  by (induction ls) auto

text \<open>What \<open>listeners[type]\<close> is when it is not a pair and the type is not \<open>__proto__\<close>.\<close>

lemma lookup_own:
  "t \<noteq> ''__proto__'' \<Longrightarrow> lookup reg t \<noteq> Element \<Longrightarrow>
     lookup reg t = (case map_of (own reg) t of Some ls \<Rightarrow> Array ls | None \<Rightarrow> Other)"
  by (auto simp: lookup_def split: option.splits if_splits)

lemma lookup_Array:
  "lookup reg t = Array ls \<Longrightarrow> t \<noteq> ''__proto__'' \<Longrightarrow> map_of (own reg) t = Some ls"
  by (auto simp: lookup_def split: option.splits if_splits)

lemma lookup_Other: "lookup reg t = Other \<Longrightarrow> map_of (own reg) t = None"
  by (auto simp: lookup_def split: option.splits if_splits)

lemma lookup_Element: "lookup reg t = Element \<Longrightarrow> map_of (own reg) t = None"
  by (auto simp: lookup_def split: option.splits if_splits)


lemma added_for_append: "added_for t (cs @ ds) = added_for t cs @ added_for t ds"
  by (induction t cs rule: added_for.induct) auto

lemma added_for_listeners:
  "added_for t (map (\<lambda>(l, opt). AddEventListener k (Listener l) (Some opt)) ls)
     = (if k = t then map fst ls else [])"
  by (induction ls) auto

lemma added_for_keys:
  "distinct (map fst kvs) \<Longrightarrow>
     added_for t (concat (map (\<lambda>(type, ls).
         map (\<lambda>(l, opt). AddEventListener type (Listener l) (Some opt)) ls) kvs))
       = map fst (case map_of kvs t of None \<Rightarrow> [] | Some ls \<Rightarrow> ls)"
proof (induction kvs)
  case Nil
  then show ?case by simp
next
  case (Cons kv kvs)
  obtain k ls where kv: "kv = (k, ls)" by (cases kv)
  have absent: "k = t \<Longrightarrow> map_of kvs t = None"
    using Cons.prems kv by (auto simp: map_of_eq_None_iff)
  show ?case
    using Cons absent by (auto simp: added_for_append added_for_listeners kv)
qed

lemma added_for_registry_calls:
  "distinct (map fst (own reg)) \<Longrightarrow> added_for t (registry_calls reg) = map fst (entries reg t)"
  unfolding registry_calls_def entries_def by (rule added_for_keys)

lemma distinct_count_one: "distinct xs \<Longrightarrow> x \<in> set xs \<Longrightarrow> count_list xs x = 1"
  by (induction xs) auto

lemma count_fst_filter: "length (filter (\<lambda>e. fst e = l) ls) = count_list (map fst ls) l"
  by (induction ls) auto

lemma addEventListener_eq:
  "ws s = Some w \<Longrightarrow> t \<noteq> ''__proto__'' \<Longrightarrow> lookup (listeners s) t \<noteq> Element \<Longrightarrow>
   addEventListener t l opt s =
     Inr (socket_calls w [AddEventListener t (Listener l) (Some opt)]
       (if l \<in> set (map fst (entries (listeners s) t)) then s
        else s\<lparr>listeners := store t (entries (listeners s) t @ [(l, opt)]) (listeners s)\<rparr>))"
  by (auto simp: addEventListener_def on_ws_def entries_def list_ex_fst lookup_own
      split: option.splits)

text \<open>What a method leaves of the registry, whether it returns or throws.\<close>

lemma addEventListener_listeners:
  assumes "settle s (addEventListener t l opt s) = Inr s'"
  shows "listeners s' = listeners s
       \<or> (\<exists>ls. lookup (listeners s) t = Array ls \<and> l \<notin> set (map fst ls)
              \<and> listeners s' = store t (ls @ [(l, opt)]) (listeners s))
       \<or> (lookup (listeners s) t = Other \<and> listeners s' = store t [(l, opt)] (listeners s))"
  using assms
  by (cases "lookup (listeners s) t")
     (auto simp: settle_def addEventListener_def on_ws_def list_ex_fst
        split: option.splits if_splits)

lemma removeEventListener_listeners:
  assumes "settle s (removeEventListener t l opt s) = Inr s'"
  shows "listeners s' = listeners s
       \<or> (\<exists>ls. lookup (listeners s) t = Array ls
              \<and> listeners s' = store t (filter (\<lambda>(l', _). l' \<noteq> l) ls) (listeners s))"
  using assms
  by (cases "lookup (listeners s) t")
     (auto simp: settle_def removeEventListener_def on_ws_def split: option.splits if_splits)

text \<open>The events that are not calls of these two methods leave the registry alone.\<close>

lemma listeners_step:
  assumes "step cfg s e = Inr s'"
    and "\<And>t l opt. e \<noteq> CallAddEventListener t l opt"
    and "\<And>t l opt. e \<noteq> CallRemoveEventListener t l opt"
  shows "listeners s' = listeners s"
proof (cases e)
  case (SocketOpen i r)
  then show ?thesis using assms(1) by (auto simp: step_def open_handler_eq split: if_splits)
next
  case (SocketClose i r)
  then show ?thesis using assms(1) by (auto simp: step_def close_handler_eq split: if_splits)
next
  case (TimerFires h)
  show ?thesis
  proof (cases "find (\<lambda>t. handle t = h) (timers s)")
    case None
    then show ?thesis using assms(1) TimerFires by (simp add: step_def)
  next
    case (Some t)
    then show ?thesis using assms(1) TimerFires
      by (cases "action t")
         (auto simp: step_def fire_def timeout_callback_def error_callback_def on_ws_def
            emitError_def Let_def split: option.splits)
  qed
next
  case CallClose
  then show ?thesis using assms(1)
    by (auto simp: step_def settle_def close_def on_ws_def split: option.splits)
qed (use assms(2,3) in simp_all)

lemma registry_ok_step:
  assumes "registry_ok (listeners s)" and "step cfg s e = Inr s'"
  shows "registry_ok (listeners s')"
proof (cases e)
  case (CallAddEventListener t l opt)
  then have "settle s (addEventListener t l opt s) = Inr s'"
    using assms(2) by (simp add: step_def)
  from addEventListener_listeners [OF this] show ?thesis
  proof (elim disjE exE conjE)
    assume "listeners s' = listeners s"
    then show ?thesis using assms(1) by simp
  next
    fix ls
    assume ls: "lookup (listeners s) t = Array ls" "l \<notin> set (map fst ls)"
      and s': "listeners s' = store t (ls @ [(l, opt)]) (listeners s)"
    show ?thesis
    proof (cases "t = ''__proto__''")
      case True
      then show ?thesis using assms(1) by (simp add: s' store_def registry_ok_def)
    next
      case False
      with ls(1) have "entries (listeners s) t = ls"
        by (simp add: entries_def lookup_Array)
      with registry_ok_entries [OF assms(1), of t] ls(2)
      have "distinct (map fst (ls @ [(l, opt)]))" by simp
      from registry_ok_store [OF assms(1) this] show ?thesis by (simp add: s')
    qed
  next
    assume "lookup (listeners s) t = Other"
      and s': "listeners s' = store t [(l, opt)] (listeners s)"
    have "distinct (map fst [(l, opt)])" by simp
    from registry_ok_store [OF assms(1) this] show ?thesis by (simp add: s')
  qed
next
  case (CallRemoveEventListener t l opt)
  then have "settle s (removeEventListener t l opt s) = Inr s'"
    using assms(2) by (simp add: step_def)
  from removeEventListener_listeners [OF this] show ?thesis
  proof (elim disjE exE conjE)
    assume "listeners s' = listeners s"
    then show ?thesis using assms(1) by simp
  next
    fix ls
    assume ls: "lookup (listeners s) t = Array ls"
      and s': "listeners s' = store t (filter (\<lambda>(l', _). l' \<noteq> l) ls) (listeners s)"
    show ?thesis
    proof (cases "t = ''__proto__''")
      case True
      then show ?thesis using assms(1) by (simp add: s' store_def registry_ok_def)
    next
      case False
      with ls(1) have "entries (listeners s) t = ls"
        by (simp add: entries_def lookup_Array)
      with registry_ok_entries [OF assms(1), of t]
      have "distinct (map fst (filter (\<lambda>(l', _). l' \<noteq> l) ls))"
        by (simp add: distinct_map_filter)
      from registry_ok_store [OF assms(1) this] show ?thesis by (simp add: s')
    qed
  qed
qed (use assms listeners_step [OF assms(2)] in simp_all)

lemma registry_ok_run:
  "registry_ok (listeners s) \<Longrightarrow> run cfg s evs = Inr s' \<Longrightarrow> registry_ok (listeners s')"
proof (induction evs arbitrary: s)
  case Nil
  then show ?case by simp
next
  case (Cons e evs)
  then show ?case
    by (auto split: sum.splits dest: registry_ok_step)
qed

lemma ws_run:
  "ws s \<noteq> None \<Longrightarrow> run cfg s evs = Inr s' \<Longrightarrow> ws s' \<noteq> None"
  using run_defined [of s cfg evs] by auto

lemma ws_in_range_step:
  assumes "ws s = Some w" and "w < length (sockets s)" and "step cfg s e = Inr s'"
  shows "\<exists>w'. ws s' = Some w' \<and> w' < length (sockets s')"
proof (cases e)
  case (SocketOpen i r)
  then show ?thesis using assms by (auto simp: step_def open_handler_eq split: if_splits)
next
  case (SocketClose i r)
  then show ?thesis using assms by (auto simp: step_def close_handler_eq split: if_splits)
next
  case (TimerFires h)
  show ?thesis
  proof (cases "find (\<lambda>t. handle t = h) (timers s)")
    case None
    then show ?thesis using assms TimerFires by (simp add: step_def)
  next
    case (Some t)
    then show ?thesis using assms TimerFires
      by (cases "action t")
         (auto simp: step_def fire_def timeout_callback_def error_callback_def on_ws_def
            connect_changed emitError_def Let_def)
  qed
next
  case CallClose
  then show ?thesis using assms by (auto simp: step_def settle_def close_def on_ws_def)
next
  case (CallAddEventListener t l opt)
  then show ?thesis using assms
    by (auto simp: step_def settle_def addEventListener_def on_ws_def
        split: found.splits if_splits)
next
  case (CallRemoveEventListener t l opt)
  then show ?thesis using assms
    by (auto simp: step_def settle_def removeEventListener_def on_ws_def
        split: found.splits if_splits)
qed

lemma ws_in_range_run:
  "ws s = Some w \<Longrightarrow> w < length (sockets s) \<Longrightarrow> run cfg s evs = Inr s'
     \<Longrightarrow> \<exists>w'. ws s' = Some w' \<and> w' < length (sockets s')"
proof (induction evs arbitrary: s w)
  case Nil
  then show ?case by simp
next
  case (Cons e evs)
  from Cons.prems(3) obtain s1 where s1: "step cfg s e = Inr s1" "run cfg s1 evs = Inr s'"
    by (auto split: sum.splits)
  from ws_in_range_step [OF Cons.prems(1,2) s1(1)]
  obtain w1 where "ws s1 = Some w1" "w1 < length (sockets s1)" by blast
  from Cons.IH [OF this s1(2)] show ?case .
qed

lemma calls_socket_calls:
  "w < length (sockets s) \<Longrightarrow>
     calls (sockets (socket_calls w cs s) ! w) = calls (sockets s ! w) @ cs"
  by (simp add: socket_calls_def)

lemma registered_step:
  assumes "l \<in> set (map fst (entries (listeners s) t))" and "\<not> removes t l e"
    and "step cfg s e = Inr s'"
  shows "l \<in> set (map fst (entries (listeners s') t))"
proof (cases e)
  case (CallAddEventListener ty l' opt)
  then have "settle s (addEventListener ty l' opt s) = Inr s'"
    using assms(3) by (simp add: step_def)
  from addEventListener_listeners [OF this] show ?thesis
  proof (elim disjE exE conjE)
    assume "listeners s' = listeners s"
    then show ?thesis using assms(1) by simp
  next
    fix ls
    assume ls: "lookup (listeners s) ty = Array ls"
      and s': "listeners s' = store ty (ls @ [(l', opt)]) (listeners s)"
    show ?thesis
    proof (cases "ty = t \<and> ty \<noteq> ''__proto__''")
      case True
      then have ty: "ty = t" and np: "t \<noteq> ''__proto__''" by auto
      with lookup_Array [OF ls] have "entries (listeners s) t = ls" by (auto simp: entries_def)
      then show ?thesis using assms(1) np by (simp add: s' ty entries_store)
    next
      case False
      then show ?thesis using assms(1) by (auto simp: s' entries_store)
    qed
  next
    assume other: "lookup (listeners s) ty = Other"
      and s': "listeners s' = store ty [(l', opt)] (listeners s)"
    from lookup_Other [OF other] have "entries (listeners s) ty = []"
      by (simp add: entries_def)
    with assms(1) have "ty \<noteq> t" by auto
    then show ?thesis using assms(1) by (simp add: s' entries_store)
  qed
next
  case (CallRemoveEventListener ty l' opt)
  then have "settle s (removeEventListener ty l' opt s) = Inr s'"
    using assms(3) by (simp add: step_def)
  from removeEventListener_listeners [OF this] show ?thesis
  proof (elim disjE exE conjE)
    assume "listeners s' = listeners s"
    then show ?thesis using assms(1) by simp
  next
    fix ls
    assume ls: "lookup (listeners s) ty = Array ls"
      and s': "listeners s' = store ty (filter (\<lambda>(x, _). x \<noteq> l') ls) (listeners s)"
    show ?thesis
    proof (cases "ty = t \<and> ty \<noteq> ''__proto__''")
      case True
      then have ty: "ty = t" and np: "t \<noteq> ''__proto__''" by auto
      with lookup_Array [OF ls] have e: "entries (listeners s) t = ls" by (auto simp: entries_def)
      from assms(2) CallRemoveEventListener ty have "l' \<noteq> l" by simp
      then show ?thesis using assms(1) np e by (force simp: s' ty entries_store)
    next
      case False
      then show ?thesis using assms(1) by (auto simp: s' entries_store)
    qed
  qed
qed (use assms(1) listeners_step [OF assms(3)] in simp_all)

lemma registered_run:
  "l \<in> set (map fst (entries (listeners s) t)) \<Longrightarrow> list_all (\<lambda>e. \<not> removes t l e) evs
     \<Longrightarrow> run cfg s evs = Inr s' \<Longrightarrow> l \<in> set (map fst (entries (listeners s') t))"
proof (induction evs arbitrary: s)
  case Nil
  then show ?case by simp
next
  case (Cons e evs)
  from Cons.prems(3) obtain s1 where s1: "step cfg s e = Inr s1" "run cfg s1 evs = Inr s'"
    by (auto split: sum.splits)
  from Cons.prems(1,2) s1(1) have "l \<in> set (map fst (entries (listeners s1) t))"
    by (intro registered_step [of l s t e cfg s1]) simp_all
  from Cons.IH [OF this _ s1(2)] Cons.prems(2) show ?case by simp
qed

lemma connect_attaches:
  assumes "registry_ok (listeners s)" and "new_socket cfg = None"
  shows "calls (last (sockets (connect cfg s)))
           = [AddEventListener ''open'' OpenHandler None,
              AddEventListener ''close'' CloseHandler None] @ registry_calls (listeners s)"
    and "added_for ty (calls (last (sockets (connect cfg s)))) = map fst (entries (listeners s) ty)"
    and "l \<in> set (map fst (entries (listeners s) t))
           \<Longrightarrow> count_list (added_for t (calls (last (sockets (connect cfg s))))) l = 1"
proof -
  show new: "calls (last (sockets (connect cfg s)))
           = [AddEventListener ''open'' OpenHandler None,
              AddEventListener ''close'' CloseHandler None] @ registry_calls (listeners s)"
    using assms(2) by (simp add: connect_eq)
  have keys: "distinct (map fst (own (listeners s)))"
    using assms(1) by (simp add: registry_ok_def)
  show order: "added_for ty (calls (last (sockets (connect cfg s)))) = map fst (entries (listeners s) ty)"
    for ty
    unfolding new using added_for_registry_calls [OF keys, of ty]
    by (simp add: added_for_append)
  show "count_list (added_for t (calls (last (sockets (connect cfg s))))) l = 1"
    if "l \<in> set (map fst (entries (listeners s) t))"
    unfolding order using registry_ok_entries [OF assms(1), of t] that by (rule distinct_count_one)
qed



lemma registered_lookup:
  assumes "l \<in> set (map fst (entries reg t))"
  shows "lookup reg t \<noteq> Element"
proof -
  from assms obtain ls where "map_of (own reg) t = Some ls"
    by (cases "map_of (own reg) t") (auto simp: entries_def)
  then show ?thesis by (simp add: lookup_def)
qed

text \<open>
  C6, amended. Take a state reached from a constructed instance and a pair \<open>(type,
  listener)\<close> whose type is not \<open>__proto__\<close> and whose registration does not throw (it
  throws only when the type is an array index into an array of pairs that a registration
  under \<open>__proto__\<close> has made the prototype of the registry). Registering the pair and then
  registering it again leaves the registry as the first registration made it, with exactly
  one entry for the pair: a new listener is appended to the array of its type, a known one
  changes nothing. After any further events that do not remove the pair, a socket that
  \<open>connect\<close> creates gets the wrapper's two handlers and then one \<open>addEventListener\<close> call
  per entry of the registry, the types in the order of \<open>Object.keys\<close> (array indices
  first, in numeric order, then the other types in the order of their first registration)
  and under each type the listeners in the order of their registration; the pair is added
  exactly once. Each of the two calls is also passed on to the socket that is current at the
  time of the call, which so receives two \<open>addEventListener\<close> calls for the pair; what it
  delivers after the repeated call is up to that socket.
\<close>

theorem addEventListener_idempotent:
  fixes s :: "('l, 'o) state"
  assumes "new_socket cfg0 = None" and "run cfg (connect cfg0 initial) evs = Inr s"
    and "t \<noteq> ''__proto__''" and "lookup (listeners s) t \<noteq> Element"
  shows "\<exists>s1 s2 w. addEventListener t l opt s = Inr s1
     \<and> addEventListener t l opt' s1 = Inr s2
     \<and> listeners s2 = listeners s1
     \<and> length (filter (\<lambda>e. fst e = l) (entries (listeners s1) t)) = 1
     \<and> entries (listeners s1) t =
         (if l \<in> set (map fst (entries (listeners s) t)) then entries (listeners s) t
          else entries (listeners s) t @ [(l, opt)])
     \<and> (\<forall>evs' s3 cfg'. list_all (\<lambda>e. \<not> removes t l e) evs' \<and> run cfg s2 evs' = Inr s3
             \<and> new_socket cfg' = None \<longrightarrow>
           calls (last (sockets (connect cfg' s3)))
             = [AddEventListener ''open'' OpenHandler None,
                AddEventListener ''close'' CloseHandler None] @ registry_calls (listeners s3)
           \<and> (\<forall>ty. added_for ty (calls (last (sockets (connect cfg' s3))))
                  = map fst (entries (listeners s3) ty))
           \<and> count_list (added_for t (calls (last (sockets (connect cfg' s3))))) l = 1)
     \<and> ws s = Some w
     \<and> calls (sockets s2 ! w) = calls (sockets s ! w)
           @ [AddEventListener t (Listener l) (Some opt),
              AddEventListener t (Listener l) (Some opt')]"
proof -
  have ok0: "registry_ok (listeners (connect cfg0 (initial :: ('l, 'o) state)))"
    by (simp add: initial_def registry_ok_def)
  have ok: "registry_ok (listeners s)"
    using registry_ok_run [OF ok0 assms(2)] .
  have "ws (connect cfg0 (initial :: ('l, 'o) state)) = Some 0"
    and "0 < length (sockets (connect cfg0 (initial :: ('l, 'o) state)))"
    using assms(1) by (simp_all add: connect_eq initial_def)
  from ws_in_range_run [OF this assms(2)]
  obtain w where w: "ws s = Some w" and wl: "w < length (sockets s)" by auto
  define s1 where "s1 = socket_calls w [AddEventListener t (Listener l) (Some opt)]
       (if l \<in> set (map fst (entries (listeners s) t)) then s
        else s\<lparr>listeners := store t (entries (listeners s) t @ [(l, opt)]) (listeners s)\<rparr>)"
  define s2 where "s2 = socket_calls w [AddEventListener t (Listener l) (Some opt')] s1"
  have add1: "addEventListener t l opt s = Inr s1"
    unfolding s1_def using w assms(3,4) by (rule addEventListener_eq)
  have ent1: "entries (listeners s1) t =
         (if l \<in> set (map fst (entries (listeners s) t)) then entries (listeners s) t
          else entries (listeners s) t @ [(l, opt)])"
    using assms(3) by (simp add: s1_def entries_store)
  then have mem1: "l \<in> set (map fst (entries (listeners s1) t))" by auto
  have w1: "ws s1 = Some w" using w by (simp add: s1_def)
  have add2: "addEventListener t l opt' s1 = Inr s2"
    unfolding addEventListener_eq [OF w1 assms(3) registered_lookup [OF mem1]] s2_def
    using mem1 by simp
  have same: "listeners s2 = listeners s1" by (simp add: s2_def)
  have c1: "calls (sockets s1 ! w) = calls (sockets s ! w)
      @ [AddEventListener t (Listener l) (Some opt)]"
    unfolding s1_def using wl by (simp add: calls_socket_calls)
  have "w < length (sockets s1)" using wl by (simp add: s1_def)
  then have "calls (sockets s2 ! w) = calls (sockets s1 ! w)
      @ [AddEventListener t (Listener l) (Some opt')]"
    unfolding s2_def by (rule calls_socket_calls)
  with c1 have forwarded: "calls (sockets s2 ! w) = calls (sockets s ! w)
           @ [AddEventListener t (Listener l) (Some opt),
              AddEventListener t (Listener l) (Some opt')]"
    by simp
  have "step cfg s (CallAddEventListener t l opt) = Inr s1"
    using add1 by (simp add: step_def settle_def)
  from registry_ok_step [OF ok this] have ok1: "registry_ok (listeners s1)" .
  then have d1: "distinct (map fst (entries (listeners s1) t))" by (rule registry_ok_entries)
  have "count_list (map fst (entries (listeners s1) t)) l = 1"
    using d1 mem1 by (rule distinct_count_one)
  then have cnt: "length (filter (\<lambda>e. fst e = l) (entries (listeners s1) t)) = 1"
    by (simp add: count_fst_filter)
  have later: "calls (last (sockets (connect cfg' s3)))
             = [AddEventListener ''open'' OpenHandler None,
                AddEventListener ''close'' CloseHandler None] @ registry_calls (listeners s3)
           \<and> (\<forall>ty. added_for ty (calls (last (sockets (connect cfg' s3))))
                  = map fst (entries (listeners s3) ty))
           \<and> count_list (added_for t (calls (last (sockets (connect cfg' s3))))) l = 1"
    if "list_all (\<lambda>e. \<not> removes t l e) evs'" and "run cfg s2 evs' = Inr s3"
      and "new_socket cfg' = None"
    for evs' s3 cfg'
  proof -
    from ok1 same have "registry_ok (listeners s2)" by simp
    from registry_ok_run [OF this that(2)] have ok3: "registry_ok (listeners s3)" .
    from mem1 same have "l \<in> set (map fst (entries (listeners s2) t))" by simp
    from registered_run [OF this that(1,2)]
    have "l \<in> set (map fst (entries (listeners s3) t))" .
    with connect_attaches [OF ok3 that(3)] show ?thesis by blast
  qed
  from add1 add2 same cnt ent1 later w forwarded show ?thesis by blast
qed

theorem addEventListener_idempotent_witness:
  "new_socket (DEFAULT_OPTIONS (Callable 0)) = None
   \<and> run (DEFAULT_OPTIONS (Callable 0))
       (connect (DEFAULT_OPTIONS (Callable 0)) (initial :: (nat, nat) state)) []
     = Inr (connect (DEFAULT_OPTIONS (Callable 0)) initial)
   \<and> ''message'' \<noteq> ''__proto__''
   \<and> lookup (listeners (connect (DEFAULT_OPTIONS (Callable 0)) (initial :: (nat, nat) state)))
        ''message'' \<noteq> Element
   \<and> (\<exists>s1 s2 s3.
        addEventListener ''message'' 7 0
            (connect (DEFAULT_OPTIONS (Callable 0)) (initial :: (nat, nat) state)) = Inr s1
        \<and> addEventListener ''message'' 7 1 s1 = Inr s2
        \<and> listeners s2 = \<lparr>own = [(''message'', [(7, 0)])], proto = None\<rparr>
        \<and> run (DEFAULT_OPTIONS (Callable 0)) s2 [SocketClose 0 0] = Inr s3
        \<and> calls (last (sockets (connect (DEFAULT_OPTIONS (Callable 0)) s3)))
            = [AddEventListener ''open'' OpenHandler None,
               AddEventListener ''close'' CloseHandler None,
               AddEventListener ''message'' (Listener 7) (Some 0)]
        \<and> count_list (added_for ''message''
              (calls (last (sockets (connect (DEFAULT_OPTIONS (Callable 0)) s3))))) 7 = 1)"
proof -
  let ?D = "DEFAULT_OPTIONS (Callable 0)"
  let ?s = "connect ?D (initial :: (nat, nat) state)"
  have h0: "new_socket ?D = None" by simp
  have h: "run ?D ?s [] = Inr ?s" by simp
  have h2: "''message'' \<noteq> ''__proto__''" by simp
  have h3: "lookup (listeners ?s) ''message'' \<noteq> Element"
    by (simp add: initial_def lookup_def)
  from addEventListener_idempotent [OF h0 h h2 h3, of 7 0 1]
  obtain s1 s2 where add1: "addEventListener ''message'' 7 0 ?s = Inr s1"
    and add2: "addEventListener ''message'' 7 1 s1 = Inr s2"
    and same: "listeners s2 = listeners s1"
    and later: "\<forall>evs' s3 cfg'. list_all (\<lambda>e. \<not> removes ''message'' 7 e) evs'
           \<and> run ?D s2 evs' = Inr s3 \<and> new_socket cfg' = None \<longrightarrow>
           calls (last (sockets (connect cfg' s3)))
             = [AddEventListener ''open'' OpenHandler None,
                AddEventListener ''close'' CloseHandler None] @ registry_calls (listeners s3)
           \<and> (\<forall>ty. added_for ty (calls (last (sockets (connect cfg' s3))))
                  = map fst (entries (listeners s3) ty))
           \<and> count_list (added_for ''message'' (calls (last (sockets (connect cfg' s3))))) 7 = 1"
    by blast
  have "listeners s1 = \<lparr>own = [(''message'', [(7, 0)])], proto = None\<rparr>" and "ws s1 \<noteq> None"
    using add1
    by (auto simp: addEventListener_def on_ws_def connect_eq initial_def lookup_def store_def
        assign_def)
  with same add2 have reg: "listeners s2 = \<lparr>own = [(''message'', [(7, 0)])], proto = None\<rparr>"
    and "ws s2 \<noteq> None"
    by (auto simp: addEventListener_def on_ws_def lookup_def split: option.splits if_splits)
  from run_defined [OF this(2), of ?D "[SocketClose 0 0]"]
  obtain s3 where s3: "run ?D s2 [SocketClose 0 0] = Inr s3" by blast
  then have reg3: "listeners s3 = \<lparr>own = [(''message'', [(7, 0)])], proto = None\<rparr>"
    using reg by (auto simp: step_def close_handler_eq split: if_splits)
  have quiet: "list_all (\<lambda>e. \<not> removes ''message'' (7::nat) e) [SocketClose 0 0 :: (nat, nat) event]"
    by simp
  from later quiet s3 h0
  have new: "calls (last (sockets (connect ?D s3)))
             = [AddEventListener ''open'' OpenHandler None,
                AddEventListener ''close'' CloseHandler None] @ registry_calls (listeners s3)"
    and once: "count_list (added_for ''message'' (calls (last (sockets (connect ?D s3))))) 7 = 1"
    by blast+
  have "calls (last (sockets (connect ?D s3)))
            = [AddEventListener ''open'' OpenHandler None,
               AddEventListener ''close'' CloseHandler None,
               AddEventListener ''message'' (Listener 7) (Some 0)]"
    unfolding new reg3 by (simp add: registry_calls_def)
  with h0 h h2 h3 add1 add2 reg s3 once show ?thesis by blast
qed

text \<open>
  The claim speaks of every pair and of registration order. Registered twice under the type
  \<open>__proto__\<close>, a listener is in the array that \<open>listeners['__proto__']\<close> gives, once, but
  that array is the prototype of the registry and no own property: \<open>Object.keys\<close> does not
  list it, and the socket of the next \<open>connect\<close> gets the wrapper's two handlers and nothing
  else. The socket that was current has received both calls. And with a listener
  registered under \<open>message\<close> and then one under \<open>2\<close>, the next socket gets the one under
  \<open>2\<close> first.
\<close>

theorem addEventListener_idempotent_counterexample:
  "map_option (\<lambda>s. (lookup (listeners s) ''__proto__'', own (listeners s), calls (sockets s ! 0)))
     (returned (run (DEFAULT_OPTIONS (Callable 0))
        (connect (DEFAULT_OPTIONS (Callable 0)) (initial :: (nat, nat) state))
        [CallAddEventListener ''__proto__'' 7 0, CallAddEventListener ''__proto__'' 7 0]))
     = Some (Array [(7, 0)], [],
             [AddEventListener ''open'' OpenHandler None,
              AddEventListener ''close'' CloseHandler None,
              AddEventListener ''__proto__'' (Listener 7) (Some 0),
              AddEventListener ''__proto__'' (Listener 7) (Some 0)])
   \<and> map_option (\<lambda>s. (ws s, calls (sockets s ! 1)))
     (returned (run (DEFAULT_OPTIONS (Callable 0))
        (connect (DEFAULT_OPTIONS (Callable 0)) (initial :: (nat, nat) state))
        [CallAddEventListener ''__proto__'' 7 0, CallAddEventListener ''__proto__'' 7 0,
         SocketClose 0 0, TimerFires 1]))
     = Some (Some 1,
             [AddEventListener ''open'' OpenHandler None,
              AddEventListener ''close'' CloseHandler None])
   \<and> map_option (\<lambda>s. (ws s, calls (sockets s ! 1)))
     (returned (run (DEFAULT_OPTIONS (Callable 0))
        (connect (DEFAULT_OPTIONS (Callable 0)) (initial :: (nat, nat) state))
        [CallAddEventListener ''message'' 7 0, CallAddEventListener ''2'' 8 0,
         SocketClose 0 0, TimerFires 1]))
     = Some (Some 1,
             [AddEventListener ''open'' OpenHandler None,
              AddEventListener ''close'' CloseHandler None,
              AddEventListener ''2'' (Listener 8) (Some 0),
              AddEventListener ''message'' (Listener 7) (Some 0)])"
  by (simp add: returned_def DEFAULT_OPTIONS_def connect_eq initial_def step_def ready_of_def
      close_handler_eq set_readyState_def initReconnectionDelay_def on_ws_def
      socket_calls_def fire_def clearTimeout_def registry_calls_def settle_def
      addEventListener_def lookup_def store_def assign_def precedes_def index_of_def digit_def)

subsection \<open>Construction\<close>





subsection \<open>Consecutive failures\<close>

lemma updateReconnectionDelay_min:
  "updateReconnectionDelay cfg d = min (d * reconnectionDelayGrowFactor cfg) (maxReconnectionDelay cfg)"
  by (simp add: updateReconnectionDelay_def Let_def min_def)

lemma step_reconnectDelay:
  assumes "step cfg s e = Inr s'" and "\<not> is_open e"
  shows "reconnectDelay s' =
     (if computes_delay cfg s e
      then (if reconnectDelay s = 0
            then initReconnectionDelay cfg (case e of SocketClose i r \<Rightarrow> r | _ \<Rightarrow> 0)
            else updateReconnectionDelay cfg (reconnectDelay s))
      else reconnectDelay s)"
proof (cases e)
  case (SocketOpen i r)
  then show ?thesis using assms by simp
next
  case (SocketClose i r)
  then show ?thesis using assms by (auto simp: step_def close_handler_eq split: if_splits)
next
  case (TimerFires h)
  show ?thesis
  proof (cases "find (\<lambda>t. handle t = h) (timers s)")
    case None
    then show ?thesis using assms TimerFires by (auto simp: step_def)
  next
    case (Some t)
    then show ?thesis using assms TimerFires
      by (cases "action t")
         (auto simp: step_def fire_def timeout_callback_def error_callback_def on_ws_def
            connect_eq emitError_def Let_def split: option.splits)
  qed
next
  case CallClose
  then show ?thesis using assms
    by (auto simp: step_def settle_def close_def on_ws_def split: option.splits)
next
  case (CallAddEventListener t l opt)
  then show ?thesis using assms
    by (auto simp: step_def settle_def addEventListener_def on_ws_def
        split: option.splits found.splits if_splits)
next
  case (CallRemoveEventListener t l opt)
  then show ?thesis using assms
    by (auto simp: step_def settle_def removeEventListener_def on_ws_def
        split: option.splits found.splits if_splits)
qed

lemma step_open_reconnectDelay:
  assumes "step cfg s e = Inr s'" and "is_open e"
  shows "reconnectDelay s' = reconnectDelay s
       \<or> (\<exists>i r. e = SocketOpen i r \<and> reconnectDelay s' = initReconnectionDelay cfg r)"
  using assms by (cases e) (auto simp: step_def open_handler_eq split: if_splits)

lemma init_bounds:
  assumes "0 < minReconnectionDelay cfg" and "0 \<le> r" and "r < 1"
  shows "0 < initReconnectionDelay cfg r"
    and "initReconnectionDelay cfg r < 2 * minReconnectionDelay cfg"
proof -
  have "0 \<le> r * minReconnectionDelay cfg" and "r * minReconnectionDelay cfg < minReconnectionDelay cfg"
    using assms by simp_all
  then show "0 < initReconnectionDelay cfg r"
    and "initReconnectionDelay cfg r < 2 * minReconnectionDelay cfg"
    using assms(1) by (simp_all add: initReconnectionDelay_def)
qed

lemma update_bounds:
  assumes "1 \<le> reconnectionDelayGrowFactor cfg" and "0 < d" and "d \<le> maxReconnectionDelay cfg"
  shows "d \<le> updateReconnectionDelay cfg d"
    and "updateReconnectionDelay cfg d \<le> maxReconnectionDelay cfg"
proof -
  have "d * 1 \<le> d * reconnectionDelayGrowFactor cfg"
    using assms(1,2) by (intro mult_left_mono) simp_all
  then show "d \<le> updateReconnectionDelay cfg d" using assms(3)
    by (simp add: updateReconnectionDelay_min)
  show "updateReconnectionDelay cfg d \<le> maxReconnectionDelay cfg"
    by (simp add: updateReconnectionDelay_min)
qed

lemma delay_ok_step:
  assumes cfg: "0 < minReconnectionDelay cfg" "1 \<le> reconnectionDelayGrowFactor cfg"
      "2 * minReconnectionDelay cfg \<le> maxReconnectionDelay cfg"
    and "delay_ok cfg s" and "step cfg s e = Inr s'" and "draw_ok e"
  shows "delay_ok cfg s'"
proof (cases "is_open e")
  case True
  from step_open_reconnectDelay [OF assms(5) True]
  show ?thesis
  proof
    assume "reconnectDelay s' = reconnectDelay s"
    then show ?thesis using assms(4) by (simp add: delay_ok_def)
  next
    assume "\<exists>i r. e = SocketOpen i r \<and> reconnectDelay s' = initReconnectionDelay cfg r"
    then obtain i r where e: "e = SocketOpen i r"
      and d: "reconnectDelay s' = initReconnectionDelay cfg r" by blast
    from e assms(6) have "0 \<le> r" "r < 1" by simp_all
    from init_bounds [OF cfg(1) this] cfg(3) show ?thesis
      by (simp add: delay_ok_def d)
  qed
next
  case False
  note d = step_reconnectDelay [OF assms(5) False]
  show ?thesis
  proof (cases "computes_delay cfg s e")
    case no: False
    then show ?thesis using d assms(4) by (simp add: delay_ok_def)
  next
    case yes: True
    then obtain i r where e: "e = SocketClose i r" by (cases e) simp_all
    from e assms(6) have r: "0 \<le> r" "r < 1" by simp_all
    show ?thesis
    proof (cases "reconnectDelay s = 0")
      case True
      then have "reconnectDelay s' = initReconnectionDelay cfg r"
        using d yes e by simp
      with init_bounds [OF cfg(1) r] cfg(3) show ?thesis by (simp add: delay_ok_def)
    next
      case False
      then have pos: "0 < reconnectDelay s" "reconnectDelay s \<le> maxReconnectionDelay cfg"
        using assms(4) by (auto simp: delay_ok_def)
      have "reconnectDelay s' = updateReconnectionDelay cfg (reconnectDelay s)"
        using d yes False by simp
      with update_bounds [OF cfg(2) pos] pos show ?thesis by (simp add: delay_ok_def)
    qed
  qed
qed

lemma delay_ok_run:
  assumes "0 < minReconnectionDelay cfg" "1 \<le> reconnectionDelayGrowFactor cfg"
      "2 * minReconnectionDelay cfg \<le> maxReconnectionDelay cfg"
  shows "delay_ok cfg s \<Longrightarrow> run cfg s evs = Inr s' \<Longrightarrow> list_all draw_ok evs \<Longrightarrow> delay_ok cfg s'"
proof (induction evs arbitrary: s)
  case Nil
  then show ?case by simp
next
  case (Cons e evs)
  from Cons.prems(2) obtain s1 where s1: "step cfg s e = Inr s1" "run cfg s1 evs = Inr s'"
    by (auto split: sum.splits)
  from delay_ok_step [OF assms Cons.prems(1) s1(1)] Cons.prems(3)
  have "delay_ok cfg s1" by simp
  from Cons.IH [OF this s1(2)] Cons.prems(3) show ?case by simp
qed


lemma delay_trace_chain:
  assumes cfg: "0 < minReconnectionDelay cfg" "1 \<le> reconnectionDelayGrowFactor cfg"
      "2 * minReconnectionDelay cfg \<le> maxReconnectionDelay cfg"
  shows "delay_ok cfg s \<Longrightarrow> list_all (\<lambda>e. \<not> is_open e) evs \<Longrightarrow> list_all draw_ok evs \<Longrightarrow>
     (\<forall>x \<in> set (delay_trace cfg s evs).
         0 < x \<and> x \<le> maxReconnectionDelay cfg \<and> reconnectDelay s \<le> x)
     \<and> sorted (delay_trace cfg s evs)
     \<and> (\<forall>k. Suc k < length (delay_trace cfg s evs) \<longrightarrow>
           delay_trace cfg s evs ! Suc k
             = min (delay_trace cfg s evs ! k * reconnectionDelayGrowFactor cfg)
                 (maxReconnectionDelay cfg))
     \<and> (reconnectDelay s \<noteq> 0 \<longrightarrow> delay_trace cfg s evs \<noteq> [] \<longrightarrow>
           hd (delay_trace cfg s evs)
             = min (reconnectDelay s * reconnectionDelayGrowFactor cfg) (maxReconnectionDelay cfg))"
proof (induction evs arbitrary: s)
  case Nil
  then show ?case by simp
next
  case (Cons e evs)
  let ?g = "reconnectionDelayGrowFactor cfg" and ?max = "maxReconnectionDelay cfg"
  show ?case
  proof (cases "step cfg s e")
    case (Inl x)
    then show ?thesis by simp
  next
    case (Inr s1)
    from Cons.prems have e: "\<not> is_open e" "draw_ok e"
      and es: "list_all (\<lambda>e. \<not> is_open e) evs" "list_all draw_ok evs" by simp_all
    have ok1: "delay_ok cfg s1"
      using delay_ok_step [OF cfg Cons.prems(1) Inr e(2)] .
    let ?ds = "delay_trace cfg s1 evs"
    from Cons.IH [OF ok1 es]
    have ih_all: "\<forall>x \<in> set ?ds. 0 < x \<and> x \<le> ?max \<and> reconnectDelay s1 \<le> x"
      and ih_sorted: "sorted ?ds"
      and ih_rec: "\<forall>k. Suc k < length ?ds \<longrightarrow> ?ds ! Suc k = min (?ds ! k * ?g) ?max"
      and ih_hd: "reconnectDelay s1 \<noteq> 0 \<longrightarrow> ?ds \<noteq> [] \<longrightarrow> hd ?ds = min (reconnectDelay s1 * ?g) ?max"
      by blast+
    note d = step_reconnectDelay [OF Inr e(1)]
    show ?thesis
    proof (cases "computes_delay cfg s e")
      case False
      then have "reconnectDelay s1 = reconnectDelay s" using d by simp
      then show ?thesis using ih_all ih_sorted ih_rec ih_hd Inr False by simp
    next
      case True
      then obtain i r where ev: "e = SocketClose i r" by (cases e) simp_all
      from ev e(2) have r: "0 \<le> r" "r < 1" by simp_all
      let ?x = "reconnectDelay s1"
      have tr: "delay_trace cfg s (e # evs) = ?x # ?ds"
        using Inr True by simp
      have x: "0 < ?x \<and> ?x \<le> ?max \<and> reconnectDelay s \<le> ?x
          \<and> (reconnectDelay s \<noteq> 0 \<longrightarrow> ?x = min (reconnectDelay s * ?g) ?max)"
      proof (cases "reconnectDelay s = 0")
        case zero: True
        then have "?x = initReconnectionDelay cfg r" using d True ev by simp
        with init_bounds [OF cfg(1) r] cfg(3) zero show ?thesis by simp
      next
        case nz: False
        then have pos: "0 < reconnectDelay s" "reconnectDelay s \<le> ?max"
          using Cons.prems(1) by (auto simp: delay_ok_def)
        have "?x = updateReconnectionDelay cfg (reconnectDelay s)" using d True nz by simp
        with update_bounds [OF cfg(2) pos] pos show ?thesis
          by (simp add: updateReconnectionDelay_min)
      qed
      then have xnz: "?x \<noteq> 0" by simp
      from x have below: "reconnectDelay s \<le> ?x" by blast
      have all: "\<forall>y \<in> set (?x # ?ds). 0 < y \<and> y \<le> ?max \<and> reconnectDelay s \<le> y"
      proof
        fix y
        assume "y \<in> set (?x # ?ds)"
        then consider "y = ?x" | "y \<in> set ?ds" by auto
        then show "0 < y \<and> y \<le> ?max \<and> reconnectDelay s \<le> y"
        proof cases
          case 1
          with x show ?thesis by blast
        next
          case 2
          with ih_all have y: "0 < y" "y \<le> ?max" "?x \<le> y" by blast+
          from below y(3) have "reconnectDelay s \<le> y" by (rule order_trans)
          with y show ?thesis by blast
        qed
      qed
      have sorted: "sorted (?x # ?ds)"
        using ih_sorted ih_all by simp
      have "(?x # ?ds) ! Suc k = min ((?x # ?ds) ! k * ?g) ?max" if "Suc k < length (?x # ?ds)" for k
      proof (cases k)
        case 0
        with that have "?ds \<noteq> []" by auto
        with ih_hd xnz have "hd ?ds = min (?x * ?g) ?max" by simp
        with 0 \<open>?ds \<noteq> []\<close> show ?thesis by (simp add: hd_conv_nth)
      next
        case (Suc k')
        with that ih_rec show ?thesis by simp
      qed
      then have rec: "\<forall>k. Suc k < length (?x # ?ds) \<longrightarrow>
          (?x # ?ds) ! Suc k = min ((?x # ?ds) ! k * ?g) ?max"
        by blast
      have hd: "reconnectDelay s \<noteq> 0 \<longrightarrow> hd (?x # ?ds) = min (reconnectDelay s * ?g) ?max"
        using x by simp
      from all sorted rec hd show ?thesis unfolding tr by simp
    qed
  qed
qed

text \<open>
  C2, amended. Let \<open>0 < minReconnectionDelay\<close>, \<open>1 \<le> reconnectionDelayGrowFactor\<close> and
  \<open>2 * minReconnectionDelay \<le> maxReconnectionDelay\<close>, and let every draw lie in \<open>[0, 1)\<close>.
  From any state a constructed instance reaches, along any events without an \<open>open\<close>, the
  delays the \<open>close\<close> handler computes satisfy: each one after the first is the minimum of
  its predecessor times the grow factor and \<open>maxReconnectionDelay\<close>; the sequence, first
  element included, is non-decreasing and bounded by \<open>maxReconnectionDelay\<close>.
\<close>

theorem backoff_sequence:
  fixes s :: "('l, 'o) state"
  assumes "0 < minReconnectionDelay cfg" and "1 \<le> reconnectionDelayGrowFactor cfg"
    and "2 * minReconnectionDelay cfg \<le> maxReconnectionDelay cfg"
    and "run cfg (connect cfg initial) evs0 = Inr s" and "list_all draw_ok evs0"
    and "list_all (\<lambda>e. \<not> is_open e) evs" and "list_all draw_ok evs"
  shows "(\<forall>k. 0 < k \<and> k < length (delay_trace cfg s evs) \<longrightarrow>
            delay_trace cfg s evs ! k
              = min (delay_trace cfg s evs ! (k - 1) * reconnectionDelayGrowFactor cfg)
                  (maxReconnectionDelay cfg))
       \<and> sorted (delay_trace cfg s evs)
       \<and> (\<forall>d \<in> set (delay_trace cfg s evs). d \<le> maxReconnectionDelay cfg)"
proof -
  have "delay_ok cfg (connect cfg (initial :: ('l, 'o) state))"
    by (simp add: delay_ok_def initial_def)
  from delay_ok_run [OF assms(1-3) this assms(4,5)] have ok: "delay_ok cfg s" .
  note chain = delay_trace_chain [OF assms(1-3) ok assms(6,7)]
  have "delay_trace cfg s evs ! k
          = min (delay_trace cfg s evs ! (k - 1) * reconnectionDelayGrowFactor cfg)
              (maxReconnectionDelay cfg)"
    if "0 < k" and "k < length (delay_trace cfg s evs)" for k
  proof -
    from that(1) obtain j where "k = Suc j" by (cases k) simp_all
    with that(2) chain show ?thesis by simp
  qed
  with chain show ?thesis by blast
qed

theorem backoff_sequence_witness:
  "0 < minReconnectionDelay ((DEFAULT_OPTIONS (Callable 0))
        \<lparr>maxReconnectionDelay := 1000, minReconnectionDelay := 100,
         reconnectionDelayGrowFactor := 2\<rparr>)
   \<and> delay_trace ((DEFAULT_OPTIONS (Callable 0))
        \<lparr>maxReconnectionDelay := 1000, minReconnectionDelay := 100,
         reconnectionDelayGrowFactor := 2\<rparr>)
       (connect ((DEFAULT_OPTIONS (Callable 0))
        \<lparr>maxReconnectionDelay := 1000, minReconnectionDelay := 100,
         reconnectionDelayGrowFactor := 2\<rparr>) (initial :: (nat, nat) state))
       [SocketClose 0 (1 / 2), TimerFires 1, SocketClose 1 0, TimerFires 3, SocketClose 2 0,
        TimerFires 5, SocketClose 3 0, TimerFires 7, SocketClose 4 0]
      = [150, 300, 600, 1000, 1000]
   \<and> sorted (delay_trace ((DEFAULT_OPTIONS (Callable 0))
        \<lparr>maxReconnectionDelay := 1000, minReconnectionDelay := 100,
         reconnectionDelayGrowFactor := 2\<rparr>)
       (connect ((DEFAULT_OPTIONS (Callable 0))
        \<lparr>maxReconnectionDelay := 1000, minReconnectionDelay := 100,
         reconnectionDelayGrowFactor := 2\<rparr>) (initial :: (nat, nat) state))
       [SocketClose 0 (1 / 2), TimerFires 1, SocketClose 1 0, TimerFires 3, SocketClose 2 0,
        TimerFires 5, SocketClose 3 0, TimerFires 7, SocketClose 4 0])"
proof -
  let ?C = "(DEFAULT_OPTIONS (Callable 0))
        \<lparr>maxReconnectionDelay := 1000, minReconnectionDelay := 100,
         reconnectionDelayGrowFactor := 2\<rparr>"
  let ?s = "connect ?C (initial :: (nat, nat) state)"
  let ?evs = "[SocketClose 0 (1 / 2), TimerFires 1, SocketClose 1 0, TimerFires 3,
        SocketClose 2 0, TimerFires 5, SocketClose 3 0, TimerFires 7, SocketClose 4 0]
        :: (nat, nat) event list"
  have h1: "0 < minReconnectionDelay ?C" and h2: "1 \<le> reconnectionDelayGrowFactor ?C"
    and h3: "2 * minReconnectionDelay ?C \<le> maxReconnectionDelay ?C"
    by (simp_all add: DEFAULT_OPTIONS_def)
  have h4: "run ?C ?s [] = Inr ?s" and h5: "list_all draw_ok ([] :: (nat, nat) event list)"
    by simp_all
  have h6: "list_all (\<lambda>e. \<not> is_open e) ?evs" and h7: "list_all draw_ok ?evs"
    by simp_all
  from backoff_sequence [OF h1 h2 h3 h4 h5 h6 h7]
  have sorted: "sorted (delay_trace ?C ?s ?evs)" by blast
  have "delay_trace ?C ?s ?evs = [150, 300, 600, 1000, 1000]"
    by (simp add: DEFAULT_OPTIONS_def connect_eq initial_def step_def ready_of_def
        close_handler_eq set_readyState_def initReconnectionDelay_def
        updateReconnectionDelay_def fire_def clearTimeout_def registry_calls_def
        zero_enat_def)
  with h1 sorted show ?thesis by blast
qed

text \<open>
  With \<open>minReconnectionDelay = 1000\<close>, \<open>maxReconnectionDelay = 1500\<close>, the default grow
  factor and the draw \<open>0.9\<close>, two failures in a row compute the delays \<open>1900\<close> and
  \<open>1500\<close>: the first is above \<open>maxReconnectionDelay\<close> and the sequence decreases.
\<close>

theorem backoff_sequence_counterexample:
  "delay_trace ((DEFAULT_OPTIONS (Callable 0))
         \<lparr>maxReconnectionDelay := 1500, minReconnectionDelay := 1000\<rparr>)
       (connect ((DEFAULT_OPTIONS (Callable 0))
         \<lparr>maxReconnectionDelay := 1500, minReconnectionDelay := 1000\<rparr>)
          (initial :: (nat, nat) state))
       [SocketClose 0 (9 / 10), TimerFires 1, SocketClose 1 0]
     = [1900, 1500]
   \<and> sorted [1900, 1500 :: real] = False
   \<and> list_all (\<lambda>d. d \<le> maxReconnectionDelay
         ((DEFAULT_OPTIONS (Callable 0))
            \<lparr>maxReconnectionDelay := 1500, minReconnectionDelay := 1000\<rparr>))
         [1900, 1500 :: real]
       = False"
  by (simp add: DEFAULT_OPTIONS_def connect_eq initial_def step_def ready_of_def
      close_handler_eq set_readyState_def initReconnectionDelay_def
      updateReconnectionDelay_def fire_def clearTimeout_def registry_calls_def)

subsection \<open>Removing a fired timer\<close>

lemma filter_filter_le: "length (filter Q (filter K xs)) \<le> length (filter Q xs)"
  by (induction xs) auto

lemma filter_filter_less:
  "x \<in> set xs \<Longrightarrow> Q x \<Longrightarrow> \<not> K x \<Longrightarrow> length (filter Q (filter K xs)) < length (filter Q xs)"
proof (induction xs)
  case Nil
  then show ?case by simp
next
  case (Cons y ys)
  have le: "length (filter Q (filter K ys)) \<le> length (filter Q ys)" by (rule filter_filter_le)
  show ?case
  proof (cases "y = x")
    case True
    then show ?thesis using Cons.prems le by simp
  next
    case False
    with Cons have "length (filter Q (filter K ys)) < length (filter Q ys)" by simp
    then show ?thesis by simp
  qed
qed

lemma other_handles:
  assumes "distinct (map handle ts)" and "t \<in> set ts" and "u \<in> set ts"
  shows "(handle u \<noteq> handle t) = (u \<noteq> t)"
  using assms by (auto simp: distinct_map dest: inj_onD)

lemma filter_fired_other:
  assumes "distinct (map handle ts)" and "t \<in> set ts" and "\<not> Q t"
  shows "filter Q (filter (\<lambda>u. handle u \<noteq> handle t) ts) = filter Q ts"
proof -
  have "filter Q (filter (\<lambda>u. handle u \<noteq> handle t) ts)
      = filter (\<lambda>u. handle u \<noteq> handle t \<and> Q u) ts"
    by (simp add: conj_commute)
  also have "\<dots> = filter Q ts"
    using assms other_handles [OF assms(1,2)] by (intro filter_cong) auto
  finally show ?thesis .
qed

lemma filter_fired_same:
  assumes "distinct (map handle ts)" and "t \<in> set ts" and "Q t"
  shows "Suc (length (filter Q (filter (\<lambda>u. handle u \<noteq> handle t) ts))) = length (filter Q ts)"
proof -
  have d: "distinct ts" using assms(1) by (simp add: distinct_map)
  have "filter Q (filter (\<lambda>u. handle u \<noteq> handle t) ts)
      = filter (\<lambda>u. handle u \<noteq> handle t \<and> Q u) ts"
    by (simp add: conj_commute)
  also have "\<dots> = filter (\<lambda>u. u \<noteq> t \<and> Q u) ts"
    using other_handles [OF assms(1,2)] by (intro filter_cong) auto
  also have "\<dots> = filter (\<lambda>u. u \<noteq> t) (filter Q ts)"
    unfolding filter_filter by (rule filter_cong) auto
  also have "\<dots> = removeAll t (filter Q ts)"
    by (simp add: removeAll_filter_not_eq eq_commute)
  also have "\<dots> = remove1 t (filter Q ts)"
    using d by (simp add: distinct_remove1_removeAll)
  finally have "length (filter Q (filter (\<lambda>u. handle u \<noteq> handle t) ts))
      = length (filter Q ts) - 1"
    using assms(2,3) by (simp add: length_remove1)
  moreover have "0 < length (filter Q ts)"
    using assms(2,3) by (auto simp: filter_empty_conv)
  ultimately show ?thesis by simp
qed

lemma find_handle:
  "find (\<lambda>u. handle u = h) ts = Some t \<Longrightarrow> t \<in> set ts \<and> handle t = h"
  by (auto simp: find_Some_iff)

subsection \<open>Which sockets are live\<close>

lemma readies_set_readyState: "readies (set_readyState i k s) = (readies s)[i := k]"
  by (simp add: readies_def set_readyState_def map_update)

lemma readyState_socket_calls [simp]:
  "map readyState (sockets (socket_calls i cs s)) = map readyState (sockets s)"
  by (simp add: socket_calls_def map_update list_update_same_conv)

lemma readies_socket_calls [simp]: "readies (socket_calls i cs s) = readies s"
  by (simp add: readies_def)

lemma ready_of_readies:
  "ready_of s i = (if i < length (readies s) then readies s ! i else CLOSED)"
  by (simp add: ready_of_def readies_def)

lemma ready_live: "ready_of s i \<noteq> CLOSED \<Longrightarrow> live s"
  by (auto simp: ready_of_readies live_def list_ex_iff split: if_splits)

lemma not_live_ready: "\<not> live s \<Longrightarrow> ready_of s i = CLOSED"
  using ready_live by blast

lemma live_is_last:
  assumes "list_all (\<lambda>k. k = CLOSED) (butlast rs)" and "i < length rs" and "rs ! i \<noteq> CLOSED"
  shows "Suc i = length rs"
proof (rule ccontr)
  assume "Suc i \<noteq> length rs"
  with assms(2) have "i < length (butlast rs)" by simp
  with assms(1) have "butlast rs ! i = CLOSED" by (simp add: list_all_length)
  with \<open>i < length (butlast rs)\<close> assms(3) show False by (simp add: nth_butlast)
qed

lemma close_last:
  assumes "list_all (\<lambda>k. k = CLOSED) (butlast rs)" and "Suc i = length rs"
  shows "list_all (\<lambda>k. k = CLOSED) (rs[i := CLOSED])"
proof -
  from assms(2) have "rs \<noteq> []" by auto
  then have "rs = butlast rs @ [last rs]" by simp
  moreover have "i = length (butlast rs)" using assms(2) by simp
  ultimately have "rs[i := CLOSED] = butlast rs @ [CLOSED]"
    by (metis list_update_length)
  with assms(1) show ?thesis by simp
qed

lemma update_last:
  assumes "Suc i = length rs"
  shows "butlast (rs[i := k]) = butlast rs"
proof -
  from assms have "i = length rs - 1" by simp
  then show ?thesis by (simp add: butlast_list_update)
qed


subsection \<open>The invariant\<close>

lemma live_readies: "readies s' = readies s \<Longrightarrow> live s' = live s"
  by (simp add: live_def)

lemma not_live_closed: "\<not> live s \<Longrightarrow> list_all (\<lambda>k. k = CLOSED) (readies s)"
  by (auto simp: live_def list_all_iff list_ex_iff)

lemma closed_not_live: "list_all (\<lambda>k. k = CLOSED) (readies s) \<Longrightarrow> \<not> live s"
  by (auto simp: live_def list_all_iff list_ex_iff)

lemma list_all_butlast: "list_all P xs \<Longrightarrow> list_all P (butlast xs)"
  by (auto simp: list_all_iff dest: in_set_butlastD)

lemma fresh_timer:
  assumes "distinct (map handle ts)" and "list_all (\<lambda>t. handle t < n) ts"
  shows "distinct (map handle (filter K ts @ [\<lparr>handle = n, action = a, delay = d\<rparr>]))"
    and "list_all (\<lambda>t. handle t < Suc n) (filter K ts @ [\<lparr>handle = n, action = a, delay = d\<rparr>])"
  using assms by (auto simp: distinct_map_filter list_all_iff)

lemma kept_timers:
  assumes "distinct (map handle ts)" and "list_all (\<lambda>t. handle t < n) ts"
  shows "distinct (map handle (filter K ts))" and "list_all (\<lambda>t. handle t < n) (filter K ts)"
  using assms by (auto simp: distinct_map_filter list_all_iff)

lemma inv_shrink:
  assumes "inv s" and "ws s' \<noteq> None" and "readies s' = readies s"
    and "distinct (map handle (timers s'))"
    and "list_all (\<lambda>t. handle t < next_handle s') (timers s')"
    and "length (pending Connect s') \<le> length (pending Connect s)"
    and "emitted EHOSTDOWN s' \<le> emitted EHOSTDOWN s"
  shows "inv s'"
proof -
  have l: "live s' = live s" using assms(3) by (rule live_readies)
  have p: "pending Connect s = [] \<Longrightarrow> pending Connect s' = []"
    using assms(6) by simp
  have e: "emitted EHOSTDOWN s = 0 \<Longrightarrow> emitted EHOSTDOWN s' = 0"
    using assms(7) by simp
  from assms(1) have i: "list_all (\<lambda>k. k = CLOSED) (butlast (readies s))"
    "length (pending Connect s) \<le> 1"
    "live s \<longrightarrow> pending Connect s = [] \<and> emitted EHOSTDOWN s = 0"
    "pending Connect s \<noteq> [] \<longrightarrow> emitted EHOSTDOWN s = 0"
    "emitted EHOSTDOWN s \<le> 1"
    by (simp_all add: inv_def)
  have "length (pending Connect s') \<le> 1" using assms(6) i(2) by simp
  moreover have "live s' \<longrightarrow> pending Connect s' = [] \<and> emitted EHOSTDOWN s' = 0"
    using l i(3) p e by blast
  moreover have "pending Connect s' \<noteq> [] \<longrightarrow> emitted EHOSTDOWN s' = 0"
    using i(4) p e by blast
  moreover have "emitted EHOSTDOWN s' \<le> 1" using assms(7) i(5) by simp
  ultimately show ?thesis
    using assms(2-5) i(1) by (simp add: inv_def)
qed

lemma inv_initial: "new_socket cfg = None \<Longrightarrow> inv (connect cfg initial)"
  by (simp add: inv_def connect_eq initial_def readies_def pending_def emitted_def live_def)

lemma inv_open:
  assumes "inv s" and "ready_of s i = CONNECTING"
  shows "inv (open_handler cfg r (set_readyState i OPEN s))"
proof -
  let ?s' = "open_handler cfg r (set_readyState i OPEN s)"
  from assms(1) have i: "ws s \<noteq> None" "list_all (\<lambda>k. k = CLOSED) (butlast (readies s))"
    "distinct (map handle (timers s))" "list_all (\<lambda>t. handle t < next_handle s) (timers s)"
    "live s \<longrightarrow> pending Connect s = [] \<and> emitted EHOSTDOWN s = 0"
    by (simp_all add: inv_def)
  from assms(2) have "ready_of s i \<noteq> CLOSED" by simp
  then have "live s" by (rule ready_live)
  with i(5) have quiet: "pending Connect s = []" "emitted EHOSTDOWN s = 0" by simp_all
  from assms(2) have lt: "i < length (readies s)" and nc: "readies s ! i \<noteq> CLOSED"
    by (auto simp: ready_of_readies split: if_splits)
  from live_is_last [OF i(2) lt nc] have last: "Suc i = length (readies s)" .
  obtain K where t: "timers ?s' = filter K (timers s)"
  proof (cases "connectingTimeout s")
    case None
    then have "timers ?s' = filter (\<lambda>_. True) (timers s)" by (simp add: open_handler_eq)
    then show ?thesis by (rule that)
  next
    case (Some h)
    then have "timers ?s' = filter (\<lambda>t. handle t \<noteq> h) (timers s)"
      by (simp add: open_handler_eq)
    then show ?thesis by (rule that)
  qed
  have r: "readies ?s' = (readies s)[i := OPEN]"
    by (simp add: open_handler_eq readies_def set_readyState_def map_update)
  have "ws ?s' \<noteq> None" using i(1) by (simp add: open_handler_eq)
  moreover have "list_all (\<lambda>k. k = CLOSED) (butlast (readies ?s'))"
    unfolding r update_last [OF last] by (rule i(2))
  moreover have "distinct (map handle (timers ?s'))"
    and "list_all (\<lambda>t. handle t < next_handle ?s') (timers ?s')"
    using kept_timers [OF i(3,4), of K] t by (simp_all add: open_handler_eq)
  moreover have p: "pending Connect ?s' = []"
    using quiet(1) filter_filter_le [of "\<lambda>t. action t = Connect" K "timers s"]
    by (simp add: pending_def t)
  moreover have "dispatched ?s' = dispatched s" by (simp add: open_handler_eq)
  then have "emitted EHOSTDOWN ?s' = 0"
    using quiet(2) filter_filter_le [of "\<lambda>t. action t = EmitError EHOSTDOWN" K "timers s"]
    by (simp add: emitted_def pending_def t)
  ultimately show ?thesis by (simp add: inv_def)
qed

lemma inv_close:
  assumes "inv s" and "ready_of s i \<noteq> CLOSED"
  shows "inv (close_handler cfg r (set_readyState i CLOSED s))"
proof -
  let ?s0 = "set_readyState i CLOSED s"
  let ?s' = "close_handler cfg r ?s0"
  from assms(1) have i: "ws s \<noteq> None" "list_all (\<lambda>k. k = CLOSED) (butlast (readies s))"
    "distinct (map handle (timers s))" "list_all (\<lambda>t. handle t < next_handle s) (timers s)"
    "live s \<longrightarrow> pending Connect s = [] \<and> emitted EHOSTDOWN s = 0"
    by (simp_all add: inv_def)
  from assms(2) have "live s" by (rule ready_live)
  with i(5) have quiet: "pending Connect s = []" "emitted EHOSTDOWN s = 0" by simp_all
  from assms(2) have lt: "i < length (readies s)" and nc: "readies s ! i \<noteq> CLOSED"
    by (auto simp: ready_of_readies split: if_splits)
  from live_is_last [OF i(2) lt nc] have last: "Suc i = length (readies s)" .
  have r: "readies ?s' = (readies s)[i := CLOSED]"
    by (simp add: close_handler_eq readies_def set_readyState_def map_update)
  have closed: "list_all (\<lambda>k. k = CLOSED) (readies ?s')"
    unfolding r using i(2) last by (rule close_last)
  then have dead: "\<not> live ?s'" by (rule closed_not_live)
  have bl: "list_all (\<lambda>k. k = CLOSED) (butlast (readies ?s'))"
    using closed by (rule list_all_butlast)
  have w: "ws ?s' \<noteq> None" using i(1) by (simp add: close_handler_eq)
  have q: "filter (\<lambda>t. action t = Connect) (timers s) = []"
    "length (filter (\<lambda>t. action t = EmitError EHOSTDOWN) (timers s))
       + length (filter (\<lambda>d. fst d = EHOSTDOWN) (dispatched s)) = 0"
    using quiet by (simp_all add: pending_def emitted_def)
  have fresh: "distinct (map handle (timers s @ [\<lparr>handle = next_handle s, action = a, delay = d\<rparr>]))"
    "list_all (\<lambda>t. handle t < Suc (next_handle s))
       (timers s @ [\<lparr>handle = next_handle s, action = a, delay = d\<rparr>])" for a d
    using fresh_timer [OF i(3,4), of "\<lambda>_. True" a d] by simp_all
  have "distinct (map handle (timers ?s'))"
    and "list_all (\<lambda>t. handle t < next_handle ?s') (timers ?s')"
    and "length (pending Connect ?s') \<le> 1"
    and "pending Connect ?s' \<noteq> [] \<longrightarrow> emitted EHOSTDOWN ?s' = 0"
    and "emitted EHOSTDOWN ?s' \<le> 1"
    using i(3,4) q fresh by (simp_all add: close_handler_eq pending_def emitted_def)
  with w bl dead show ?thesis by (simp add: inv_def)
qed


lemma inv_fire:
  assumes "inv s" and "find (\<lambda>u. handle u = h) (timers s) = Some t"
    and "fire cfg (action t) (clearTimeout (Some h) s) = Inr s'"
  shows "inv s'"
proof -
  let ?K = "\<lambda>u. handle u \<noteq> h"
  let ?s0 = "clearTimeout (Some h) s"
  from assms(1) have i: "ws s \<noteq> None" "list_all (\<lambda>k. k = CLOSED) (butlast (readies s))"
    "distinct (map handle (timers s))" "list_all (\<lambda>t. handle t < next_handle s) (timers s)"
    "length (pending Connect s) \<le> 1"
    "live s \<longrightarrow> pending Connect s = [] \<and> emitted EHOSTDOWN s = 0"
    "pending Connect s \<noteq> [] \<longrightarrow> emitted EHOSTDOWN s = 0"
    by (simp_all add: inv_def)
  from i(1) obtain w where w: "ws s = Some w" by auto
  from find_handle [OF assms(2)] have t: "t \<in> set (timers s)" "handle t = h" by simp_all
  have t0: "timers ?s0 = filter ?K (timers s)" by (simp add: clearTimeout_def)
  note fresh = fresh_timer [OF i(3,4), of ?K]
  note kept = kept_timers [OF i(3,4), of ?K]
  have pc: "length (filter (\<lambda>u. action u = Connect) (filter ?K (timers s)))
      \<le> length (pending Connect s)"
    unfolding pending_def by (rule filter_filter_le)
  have pe: "length (filter (\<lambda>u. action u = EmitError EHOSTDOWN) (filter ?K (timers s)))
      \<le> length (pending (EmitError EHOSTDOWN) s)"
    unfolding pending_def by (rule filter_filter_le)
  show ?thesis
  proof (cases "action t")
    case ConnectingTimeout
    with assms(3) w have s': "s' = emitError ETIMEDOUT (socket_calls w [Close] ?s0)"
      by (simp add: fire_def timeout_callback_def on_ws_def)
    have tm: "timers s' = filter ?K (timers s)
        @ [\<lparr>handle = next_handle s, action = EmitError ETIMEDOUT, delay = 0\<rparr>]"
      and nh: "next_handle s' = Suc (next_handle s)" and ds: "dispatched s' = dispatched s"
      by (simp_all add: s' emitError_def t0)
    show ?thesis
    proof (rule inv_shrink [OF assms(1)])
      show "ws s' \<noteq> None" using w by (simp add: s' emitError_def)
      show "readies s' = readies s" by (simp add: s' emitError_def readies_def)
      show "distinct (map handle (timers s'))" unfolding tm by (rule fresh)
      show "list_all (\<lambda>t. handle t < next_handle s') (timers s')" unfolding tm nh by (rule fresh)
      show "length (pending Connect s') \<le> length (pending Connect s)"
        using pc by (simp add: pending_def tm)
      show "emitted EHOSTDOWN s' \<le> emitted EHOSTDOWN s"
        using pe by (simp add: emitted_def pending_def tm ds)
    qed
  next
    case (EmitError c)
    with assms(3) w obtain fns where s': "s' = socket_calls w []
        (?s0\<lparr>dispatched := dispatched ?s0 @ [(c, fns)]\<rparr>)"
      by (auto simp: fire_def error_callback_def on_ws_def Let_def)
    have tm: "timers s' = filter ?K (timers s)" and nh: "next_handle s' = next_handle s"
      by (simp_all add: s' t0)
    have ds: "length (filter (\<lambda>d. fst d = EHOSTDOWN) (dispatched s'))
        = length (filter (\<lambda>d. fst d = EHOSTDOWN) (dispatched s)) + (if c = EHOSTDOWN then 1 else 0)"
      by (simp add: s')
    have less: "length (filter (\<lambda>u. action u = EmitError EHOSTDOWN) (filter ?K (timers s)))
        < length (pending (EmitError EHOSTDOWN) s)" if "c = EHOSTDOWN"
      unfolding pending_def using t that EmitError by (intro filter_filter_less [of t]) simp_all
    show ?thesis
    proof (rule inv_shrink [OF assms(1)])
      show "ws s' \<noteq> None" using w by (simp add: s')
      show "readies s' = readies s" by (simp add: s' readies_def)
      show "distinct (map handle (timers s'))" unfolding tm by (rule kept)
      show "list_all (\<lambda>t. handle t < next_handle s') (timers s')" unfolding tm nh by (rule kept)
      show "length (pending Connect s') \<le> length (pending Connect s)"
        using pc by (simp add: pending_def tm)
      show "emitted EHOSTDOWN s' \<le> emitted EHOSTDOWN s"
      proof (cases "c = EHOSTDOWN")
        case True
        with less ds show ?thesis by (simp add: emitted_def pending_def tm)
      next
        case False
        with pe ds show ?thesis by (simp add: emitted_def pending_def tm)
      qed
    qed
  next
    case Connect
    with assms(3) have s': "s' = connect cfg ?s0" by (simp add: fire_def)
    show ?thesis
    proof (cases "new_socket cfg")
      case (Some x)
      then have s0: "s' = ?s0" by (simp add: s' connect_thrown)
      show ?thesis
      proof (rule inv_shrink [OF assms(1)])
        show "ws s' \<noteq> None" using w by (simp add: s0)
        show "readies s' = readies s" by (simp add: s0 readies_def)
        show "distinct (map handle (timers s'))" unfolding s0 t0 by (rule kept)
        show "list_all (\<lambda>t. handle t < next_handle s') (timers s')"
          using kept(2) by (simp add: s0 t0)
        show "length (pending Connect s') \<le> length (pending Connect s)"
          using pc by (simp add: pending_def s0 t0)
        show "emitted EHOSTDOWN s' \<le> emitted EHOSTDOWN s"
          using pe by (simp add: emitted_def pending_def s0 t0)
      qed
    next
    case None
    from t Connect have "pending Connect s \<noteq> []"
      by (auto simp: pending_def filter_empty_conv)
    with i(6,7) have dead: "\<not> live s" and none: "emitted EHOSTDOWN s = 0" by blast+
    have "Suc (length (filter (\<lambda>u. action u = Connect) (filter (\<lambda>u. handle u \<noteq> handle t) (timers s))))
        = length (filter (\<lambda>u. action u = Connect) (timers s))"
      using i(3) t(1) Connect by (intro filter_fired_same) simp_all
    with i(5) have "length (filter (\<lambda>u. action u = Connect) (filter ?K (timers s))) = 0"
      unfolding pending_def t(2) by linarith
    then have p0: "filter (\<lambda>u. action u = Connect) (filter ?K (timers s)) = []"
      by (simp only: length_0_conv)
    have tm: "timers s' = filter ?K (timers s)
        @ [\<lparr>handle = next_handle s, action = ConnectingTimeout, delay = connectionTimeout cfg\<rparr>]"
      and nh: "next_handle s' = Suc (next_handle s)" and ds: "dispatched s' = dispatched s"
      and rs: "readies s' = readies s @ [CONNECTING]"
      using None by (simp_all add: s' connect_eq t0 readies_def)
    have "ws s' \<noteq> None" using None by (simp add: s' connect_eq)
    moreover have "list_all (\<lambda>k. k = CLOSED) (butlast (readies s'))"
      unfolding rs using not_live_closed [OF dead] by simp
    moreover have "distinct (map handle (timers s'))" unfolding tm by (rule fresh)
    moreover have "list_all (\<lambda>t. handle t < next_handle s') (timers s')"
      unfolding tm nh by (rule fresh)
    moreover have "pending Connect s' = []" using p0 by (simp add: pending_def tm)
    moreover have "emitted EHOSTDOWN s' = 0"
      using none pe by (simp add: emitted_def pending_def tm ds)
    ultimately show ?thesis by (simp add: inv_def)
    qed
  qed
qed

lemma inv_call:
  assumes "inv s" and "ws s = Some w"
    and "ws s1 = ws s" and "sockets s1 = sockets s" and "timers s1 = timers s"
    and "next_handle s1 = next_handle s" and "dispatched s1 = dispatched s"
  shows "inv (socket_calls w cs s1)"
  by (rule inv_shrink [OF assms(1)])
     (use assms in \<open>simp_all add: inv_def readies_def pending_def emitted_def\<close>)

text \<open>
  What the two registry methods do to a constructed instance: nothing when they throw,
  else a new registry and calls on the socket.
\<close>

lemma method_shape:
  assumes "ws s = Some w"
  shows "settle s (addEventListener t l opt s) = Inr s' \<Longrightarrow>
           s' = s \<or> (\<exists>cs reg. s' = socket_calls w cs (s\<lparr>listeners := reg\<rparr>))"
    and "settle s (removeEventListener t l opt s) = Inr s' \<Longrightarrow>
           s' = s \<or> (\<exists>cs reg. s' = socket_calls w cs (s\<lparr>listeners := reg\<rparr>))"
proof -
  have same: "s\<lparr>listeners := listeners s\<rparr> = s" by simp
  show "s' = s \<or> (\<exists>cs reg. s' = socket_calls w cs (s\<lparr>listeners := reg\<rparr>))"
    if "settle s (addEventListener t l opt s) = Inr s'"
  proof (cases "lookup (listeners s) t")
    case (Array ls)
    show ?thesis
    proof (cases "list_ex (\<lambda>(l', _). l' = l) ls")
      case True
      with that assms Array
      have "s' = socket_calls w [AddEventListener t (Listener l) (Some opt)]
          (s\<lparr>listeners := listeners s\<rparr>)"
        by (simp add: settle_def addEventListener_def on_ws_def)
      then show ?thesis by blast
    next
      case False
      with that assms Array show ?thesis
        by (auto simp: settle_def addEventListener_def on_ws_def)
    qed
  next
    case Element
    with that assms show ?thesis by (simp add: settle_def addEventListener_def)
  next
    case Other
    with that assms show ?thesis by (auto simp: settle_def addEventListener_def on_ws_def)
  qed
  show "s' = s \<or> (\<exists>cs reg. s' = socket_calls w cs (s\<lparr>listeners := reg\<rparr>))"
    if "settle s (removeEventListener t l opt s) = Inr s'"
  proof (cases "lookup (listeners s) t")
    case (Array ls)
    with that assms show ?thesis by (auto simp: settle_def removeEventListener_def on_ws_def)
  next
    case Element
    with that assms show ?thesis by (simp add: settle_def removeEventListener_def)
  next
    case Other
    with that assms
    have "s' = socket_calls w [RemoveEventListener t l opt] (s\<lparr>listeners := listeners s\<rparr>)"
      by (simp add: settle_def removeEventListener_def on_ws_def)
    then show ?thesis by blast
  qed
qed

lemma inv_step:
  assumes "inv s" and "step cfg s e = Inr s'"
  shows "inv s'"
proof -
  from assms(1) obtain w where w: "ws s = Some w" by (auto simp: inv_def)
  show ?thesis
  proof (cases e)
    case (SocketOpen i r)
    then show ?thesis
      using assms inv_open [OF assms(1), of i cfg r] by (auto simp: step_def split: if_splits)
  next
    case (SocketClose i r)
    then show ?thesis
      using assms inv_close [OF assms(1), of i cfg r] by (auto simp: step_def split: if_splits)
  next
    case (TimerFires h)
    show ?thesis
    proof (cases "find (\<lambda>u. handle u = h) (timers s)")
      case None
      then show ?thesis using assms TimerFires by (simp add: step_def)
    next
      case (Some t)
      with assms(2) TimerFires have "fire cfg (action t) (clearTimeout (Some h) s) = Inr s'"
        by (simp add: step_def)
      with assms(1) Some show ?thesis by (rule inv_fire)
    qed
  next
    case CallClose
    with assms(2) w have "s' = socket_calls w [Close] (s\<lparr>shouldRetry := False\<rparr>)"
      by (simp add: step_def settle_def close_def on_ws_def)
    then show ?thesis using inv_call [OF assms(1) w, of "s\<lparr>shouldRetry := False\<rparr>"] by simp
  next
    case (CallAddEventListener ty l opt)
    with assms(2) have "settle s (addEventListener ty l opt s) = Inr s'"
      by (simp add: step_def)
    from method_shape(1) [OF w this] show ?thesis
    proof (elim disjE exE)
      assume "s' = s"
      then show ?thesis using assms(1) by simp
    next
      fix cs reg
      assume "s' = socket_calls w cs (s\<lparr>listeners := reg\<rparr>)"
      then show ?thesis using inv_call [OF assms(1) w, of "s\<lparr>listeners := reg\<rparr>"] by simp
    qed
  next
    case (CallRemoveEventListener ty l opt)
    with assms(2) have "settle s (removeEventListener ty l opt s) = Inr s'"
      by (simp add: step_def)
    from method_shape(2) [OF w this] show ?thesis
    proof (elim disjE exE)
      assume "s' = s"
      then show ?thesis using assms(1) by simp
    next
      fix cs reg
      assume "s' = socket_calls w cs (s\<lparr>listeners := reg\<rparr>)"
      then show ?thesis using inv_call [OF assms(1) w, of "s\<lparr>listeners := reg\<rparr>"] by simp
    qed
  qed
qed

lemma inv_run: "inv s \<Longrightarrow> run cfg s evs = Inr s' \<Longrightarrow> inv s'"
proof (induction evs arbitrary: s)
  case Nil
  then show ?case by simp
next
  case (Cons e evs)
  then show ?case by (auto split: sum.splits dest: inv_step)
qed


subsection \<open>After \<open>EHOSTDOWN\<close>\<close>

text \<open>
  Where the first factory call threw there is no socket and no timer, and no event has a
  next state that differs.
\<close>

lemma unconstructed_step:
  assumes "ws s = None" and "sockets s = []" and "timers s = []" and "step cfg s e = Inr s'"
  shows "s' = s"
proof (cases e)
  case (SocketOpen i r)
  then show ?thesis using assms by (simp add: step_def ready_of_def)
next
  case (SocketClose i r)
  then show ?thesis using assms by (simp add: step_def ready_of_def)
next
  case (TimerFires h)
  then show ?thesis using assms by (simp add: step_def)
next
  case CallClose
  then show ?thesis using assms by (simp add: step_def settle_def close_def on_ws_def)
next
  case (CallAddEventListener t l opt)
  then show ?thesis using assms
    by (auto simp: step_def settle_def addEventListener_def on_ws_def
        split: found.splits sum.splits if_splits)
next
  case (CallRemoveEventListener t l opt)
  then show ?thesis using assms
    by (auto simp: step_def settle_def removeEventListener_def on_ws_def
        split: found.splits sum.splits if_splits)
qed

lemma unconstructed_run:
  "ws s = None \<Longrightarrow> sockets s = [] \<Longrightarrow> timers s = [] \<Longrightarrow> run cfg s evs = Inr s' \<Longrightarrow> s' = s"
proof (induction evs arbitrary: s')
  case Nil
  then show ?case by simp
next
  case (Cons e evs)
  from Cons.prems(4) obtain s1 where s1: "step cfg s e = Inr s1" "run cfg s1 evs = Inr s'"
    by (auto split: sum.splits)
  from unconstructed_step [OF Cons.prems(1-3) s1(1)] have "s1 = s" .
  with Cons.IH [of s'] Cons.prems(1-3) s1(2) show ?case by simp
qed

lemma stalled_step:
  assumes "inv s" and "emitted EHOSTDOWN s = 1" and "step cfg s e = Inr s'"
  shows "emitted EHOSTDOWN s' = 1 \<and> length (sockets s') = length (sockets s)"
proof -
  from assms(1,2) have dead: "\<not> live s" and none: "pending Connect s = []"
    and d: "distinct (map handle (timers s))" and w0: "ws s \<noteq> None"
    by (auto simp: inv_def)
  from w0 obtain w where w: "ws s = Some w" by auto
  show ?thesis
  proof (cases e)
    case (SocketOpen i r)
    then show ?thesis using assms(2,3) not_live_ready [OF dead, of i] by (simp add: step_def)
  next
    case (SocketClose i r)
    then show ?thesis using assms(2,3) not_live_ready [OF dead, of i] by (simp add: step_def)
  next
    case (TimerFires h)
    show ?thesis
    proof (cases "find (\<lambda>u. handle u = h) (timers s)")
      case None
      then show ?thesis using assms(2,3) TimerFires by (simp add: step_def)
    next
      case (Some t)
      from find_handle [OF Some] have t: "t \<in> set (timers s)" "handle t = h" by simp_all
      from Some assms(3) TimerFires
      have f: "fire cfg (action t) (clearTimeout (Some h) s) = Inr s'"
        by (simp add: step_def)
      let ?Q = "\<lambda>u. action u = EmitError EHOSTDOWN"
      show ?thesis
      proof (cases "action t")
        case ConnectingTimeout
        then have "filter ?Q (filter (\<lambda>u. handle u \<noteq> handle t) (timers s)) = filter ?Q (timers s)"
          using d t(1) by (intro filter_fired_other) simp_all
        moreover from f w ConnectingTimeout
        have "s' = emitError ETIMEDOUT (socket_calls w [Close] (clearTimeout (Some h) s))"
          by (simp add: fire_def timeout_callback_def on_ws_def)
        ultimately show ?thesis
          using assms(2) t(2) by (simp add: emitted_def pending_def emitError_def clearTimeout_def)
      next
        case Connect
        with t(1) have "pending Connect s \<noteq> []" by (auto simp: pending_def filter_empty_conv)
        with none show ?thesis by simp
      next
        case (EmitError c)
        with f w obtain fns where s': "s' = socket_calls w []
            ((clearTimeout (Some h) s)\<lparr>dispatched := dispatched s @ [(c, fns)]\<rparr>)"
          by (auto simp: fire_def error_callback_def on_ws_def Let_def)
        show ?thesis
        proof (cases "c = EHOSTDOWN")
          case True
          with EmitError have "Suc (length (filter ?Q (filter (\<lambda>u. handle u \<noteq> handle t) (timers s))))
              = length (filter ?Q (timers s))"
            using d t(1) by (intro filter_fired_same) simp_all
          moreover have "emitted EHOSTDOWN s'
              = length (filter ?Q (filter (\<lambda>u. handle u \<noteq> handle t) (timers s)))
                + Suc (length (filter (\<lambda>d. fst d = EHOSTDOWN) (dispatched s)))"
            using t(2) True by (simp add: s' emitted_def pending_def clearTimeout_def)
          moreover have "emitted EHOSTDOWN s
              = length (filter ?Q (timers s))
                + length (filter (\<lambda>d. fst d = EHOSTDOWN) (dispatched s))"
            by (simp add: emitted_def pending_def)
          ultimately have "emitted EHOSTDOWN s' = 1" using assms(2) by linarith
          then show ?thesis by (simp add: s')
        next
          case False
          with EmitError have "filter ?Q (filter (\<lambda>u. handle u \<noteq> handle t) (timers s))
              = filter ?Q (timers s)"
            using d t(1) by (intro filter_fired_other) simp_all
          then show ?thesis
            using assms(2) t(2) False by (simp add: s' emitted_def pending_def clearTimeout_def)
        qed
      qed
    qed
  next
    case CallClose
    then show ?thesis using assms(2,3) w
      by (auto simp: step_def settle_def close_def on_ws_def emitted_def pending_def)
  next
    case (CallAddEventListener ty l opt)
    with assms(3) have "settle s (addEventListener ty l opt s) = Inr s'"
      by (simp add: step_def)
    from method_shape(1) [OF w this] show ?thesis
      using assms(2) by (auto simp: emitted_def pending_def)
  next
    case (CallRemoveEventListener ty l opt)
    with assms(3) have "settle s (removeEventListener ty l opt s) = Inr s'"
      by (simp add: step_def)
    from method_shape(2) [OF w this] show ?thesis
      using assms(2) by (auto simp: emitted_def pending_def)
  qed
qed

lemma stalled_run:
  assumes "inv s" and "emitted EHOSTDOWN s = 1"
  shows "\<exists>s'. run cfg s evs = Inr s' \<and> inv s' \<and> emitted EHOSTDOWN s' = 1
           \<and> length (sockets s') = length (sockets s)"
  using assms
proof (induction evs arbitrary: s)
  case Nil
  then show ?case by simp
next
  case (Cons e evs)
  from Cons.prems(1) have "ws s \<noteq> None" by (simp add: inv_def)
  from step_defined [OF this, of cfg e] obtain s1 where s1: "step cfg s e = Inr s1" by blast
  from inv_step [OF Cons.prems(1) s1] have i1: "inv s1" .
  from stalled_step [OF Cons.prems s1]
  have e1: "emitted EHOSTDOWN s1 = 1" and l1: "length (sockets s1) = length (sockets s)"
    by simp_all
  from Cons.IH [OF i1 e1] show ?case using s1 l1 by auto
qed

text \<open>
  C3. Take any state a constructed instance reaches, a socket that can still fire \<open>close\<close>,
  and a retry count that this \<open>close\<close> pushes over \<open>maxRetries\<close>. No \<open>EHOSTDOWN\<close> was
  emitted before. The handler emits one and schedules no retry. After any further events
  the number of \<open>EHOSTDOWN\<close> errors emitted (dispatches pending or carried out) is still
  one, no retry is pending, and no socket has been created.
\<close>

theorem ehostdown_once:
  fixes s :: "('l, 'o) state"
  assumes "run cfg (connect cfg0 initial) evs = Inr s"
    and "ready_of s i \<noteq> CLOSED"
    and "enat (Suc (retriesCount s)) > maxRetries cfg"
  shows "\<exists>s1. step cfg s (SocketClose i r) = Inr s1
      \<and> emitted EHOSTDOWN s = 0 \<and> emitted EHOSTDOWN s1 = 1
      \<and> pending Connect s1 = [] \<and> length (sockets s1) = length (sockets s)
      \<and> (\<forall>evs'. \<exists>s2. run cfg s1 evs' = Inr s2 \<and> emitted EHOSTDOWN s2 = 1
            \<and> pending Connect s2 = [] \<and> length (sockets s2) = length (sockets s))"
proof -
  let ?s1 = "close_handler cfg r (set_readyState i CLOSED s)"
  have i: "inv s"
  proof (cases "new_socket cfg0")
    case None
    then show ?thesis using assms(1) by (intro inv_run [OF inv_initial])
  next
    case (Some x)
    then have "run cfg initial evs = Inr s"
      using assms(1) by (simp add: connect_thrown)
    then have "s = initial"
      by (intro unconstructed_run [of initial cfg evs s]) (simp_all add: initial_def)
    with assms(2) show ?thesis by (simp add: ready_of_def initial_def)
  qed
  from assms(2) have "live s" by (rule ready_live)
  with i have before: "emitted EHOSTDOWN s = 0" "pending Connect s = []"
    by (simp_all add: inv_def)
  have st: "step cfg s (SocketClose i r) = Inr ?s1"
    using assms(2) by (rule step_SocketClose)
  from inv_step [OF i st] have i1: "inv ?s1" .
  have e1: "emitted EHOSTDOWN ?s1 = 1"
    using before(1) assms(3) by (simp add: close_handler_eq emitted_def pending_def)
  have l1: "length (sockets ?s1) = length (sockets s)"
    by (simp add: close_handler_eq)
  from i1 e1 have p1: "pending Connect ?s1 = []" by (auto simp: inv_def)
  have later: "\<exists>s2. run cfg ?s1 evs' = Inr s2 \<and> emitted EHOSTDOWN s2 = 1
            \<and> pending Connect s2 = [] \<and> length (sockets s2) = length (sockets s)" for evs'
  proof -
    from stalled_run [OF i1 e1, of cfg evs'] obtain s2 where
      s2: "run cfg ?s1 evs' = Inr s2" "inv s2" "emitted EHOSTDOWN s2 = 1"
        "length (sockets s2) = length (sockets ?s1)"
      by blast
    from s2(2,3) have "pending Connect s2 = []" by (auto simp: inv_def)
    with s2 l1 show ?thesis by simp
  qed
  from st before(1) e1 p1 l1 later show ?thesis by blast
qed

theorem ehostdown_once_witness:
  "map_option (\<lambda>s. (retriesCount s, ready_of s 2, emitted EHOSTDOWN s))
      (returned (run ((DEFAULT_OPTIONS (Callable 0))\<lparr>maxRetries := 2\<rparr>)
         (connect ((DEFAULT_OPTIONS (Callable 0))\<lparr>maxRetries := 2\<rparr>)
            (initial :: (nat, nat) state))
         [SocketClose 0 0, TimerFires 1, SocketClose 1 0, TimerFires 3]))
     = Some (2, CONNECTING, 0)
   \<and> map_option (\<lambda>s. (emitted EHOSTDOWN s, pending Connect s, length (sockets s)))
      (returned (run ((DEFAULT_OPTIONS (Callable 0))\<lparr>maxRetries := 2\<rparr>)
         (connect ((DEFAULT_OPTIONS (Callable 0))\<lparr>maxRetries := 2\<rparr>)
            (initial :: (nat, nat) state))
         ([SocketClose 0 0, TimerFires 1, SocketClose 1 0, TimerFires 3]
          @ SocketClose 2 0 # [TimerFires 5, TimerFires 0, CallClose, SocketClose 2 0])))
     = Some (1, [], 3)"
proof -
  let ?C = "(DEFAULT_OPTIONS (Callable 0))\<lparr>maxRetries := 2\<rparr>"
  let ?s0 = "connect ?C (initial :: (nat, nat) state)"
  let ?evs = "[SocketClose 0 0, TimerFires 1, SocketClose 1 0, TimerFires 3]
      :: (nat, nat) event list"
  let ?evs' = "[TimerFires 5, TimerFires 0, CallClose, SocketClose 2 0] :: (nat, nat) event list"
  have "\<exists>s. run ?C ?s0 ?evs = Inr s \<and> retriesCount s = 2 \<and> ready_of s 2 = CONNECTING
      \<and> length (sockets s) = 3"
    by (simp add: DEFAULT_OPTIONS_def connect_eq initial_def step_def ready_of_def
        close_handler_eq set_readyState_def initReconnectionDelay_def
        updateReconnectionDelay_def fire_def clearTimeout_def registry_calls_def
        numeral_eq_enat)
  then obtain s where s: "run ?C ?s0 ?evs = Inr s" "retriesCount s = 2"
    "ready_of s 2 = CONNECTING" "length (sockets s) = 3"
    by blast
  from s(3) have live: "ready_of s 2 \<noteq> CLOSED" by simp
  have exceed: "enat (Suc (retriesCount s)) > maxRetries ?C"
    using s(2) by (simp add: DEFAULT_OPTIONS_def numeral_eq_enat)
  from ehostdown_once [OF s(1) live exceed, of 0]
  obtain s1 where s1: "step ?C s (SocketClose 2 0) = Inr s1" "emitted EHOSTDOWN s = 0"
    and after: "\<forall>evs'. \<exists>s2. run ?C s1 evs' = Inr s2 \<and> emitted EHOSTDOWN s2 = 1
            \<and> pending Connect s2 = [] \<and> length (sockets s2) = length (sockets s)"
    by blast
  from after obtain s2 where s2: "run ?C s1 ?evs' = Inr s2" "emitted EHOSTDOWN s2 = 1"
    "pending Connect s2 = []" "length (sockets s2) = length (sockets s)"
    by blast
  have "run ?C ?s0 (?evs @ SocketClose 2 0 # ?evs') = Inr s2"
    unfolding run_append using s(1) s1(1) s2(1) by simp
  with s s1(2) s2 show ?thesis by (simp add: returned_def)
qed

end
